theory Spec2Isabelle
  imports Complex_Main
begin

section \<open>Values and node descriptions\<close>

text \<open>
  The \<open>type\<close> of a node description is a host tag (a string) or a component (a JavaScript
  function, compared by identity: it is modelled by a number naming the function). The
  bodies of the components are a parameter of the engine, see \<open>comp\<close> below.
\<close>

datatype kind = Host string | Component nat

text \<open>
  JavaScript values. Numbers are integers (floating point is outside the model), \<open>VFun\<close>
  is an opaque function value (an event handler), and \<open>VObj\<close> is a node description
  \<open>{type, props: {...attributes, children}}\<close>: its kind, its attributes other than
  \<open>children\<close>, and its children.
\<close>

datatype jsval =
    VUndefined
  | VNull
  | VBool bool
  | VNum int
  | VStr string
  | VFun nat
  | VObj kind "(string \<times> jsval) list" "jsval list"

type_synonym attrs = "(string \<times> jsval) list"

text \<open>The \<open>props\<close> object of a description or fiber: the attributes and the children.\<close>

type_synonym props = "attrs \<times> jsval list"

fun typeof :: "jsval \<Rightarrow> string" where
  "typeof VUndefined = ''undefined''"
| "typeof VNull = ''object''"
| "typeof (VBool b) = ''boolean''"
| "typeof (VNum n) = ''number''"
| "typeof (VStr s) = ''string''"
| "typeof (VFun f) = ''function''"
| "typeof (VObj k a c) = ''object''"

text \<open>Truthiness, as \<open>element && ...\<close> and \<open>if (element)\<close> test it.\<close>

fun truthy :: "jsval \<Rightarrow> bool" where
  "truthy VUndefined = False"
| "truthy VNull = False"
| "truthy (VBool b) = b"
| "truthy (VNum n) = (n \<noteq> 0)"
| "truthy (VStr s) = (s \<noteq> [])"
| "truthy (VFun f) = True"
| "truthy (VObj k a c) = True"

text \<open>
  \<open>element.type\<close> and \<open>element.props\<close> of a truthy value: \<open>None\<close> is \<open>undefined\<close>, which
  is what reading the property of a primitive or of a function gives.
\<close>

fun jtype :: "jsval \<Rightarrow> kind option" where
  "jtype (VObj k a c) = Some k"
| "jtype v = None"

fun jprops :: "jsval \<Rightarrow> props option" where
  "jprops (VObj k a c) = Some (a, c)"
| "jprops v = None"

definition createTextElement :: "jsval \<Rightarrow> jsval" where
  "createTextElement text = VObj (Host ''TEXT_ELEMENT'') [(''nodeValue'', text)] []"

text \<open>
  \<open>createElement(type, props, ...children)\<close>. The \<open>props\<close> argument may be \<open>null\<close>
  (\<open>None\<close>), whose spread adds nothing; a \<open>children\<close> key of \<open>props\<close> is overwritten by
  the mapped children.
\<close>

definition createElement :: "kind \<Rightarrow> attrs option \<Rightarrow> jsval list \<Rightarrow> jsval" where
  "createElement type props children =
     VObj type
       (filter (\<lambda>(key, v). key \<noteq> ''children'') (case props of None \<Rightarrow> [] | Some ps \<Rightarrow> ps))
       (map (\<lambda>child. if typeof child = ''object'' then child else createTextElement child)
          children)"

section \<open>Fibers, hook cells and the global variables\<close>

datatype effect = PLACEMENT | UPDATE | DELETION

text \<open>
  A fiber object. References to fibers are addresses into the fiber heap; \<open>None\<close> is
  \<open>null\<close> or \<open>undefined\<close> (a field the object literal did not set), which the code never
  tells apart: it tests references by truthiness or with \<open>!= null\<close>. \<open>domNode\<close> is the
  field \<open>dom\<close>, the identity of a DOM node; \<open>ftype\<close> is the field \<open>type\<close>; \<open>hooks\<close>
  holds the addresses of hook cells.
\<close>

record fiber =
  ftype :: "kind option"
  props :: "props option"
  domNode :: "nat option"
  parent :: "nat option"
  alternate :: "nat option"
  effectTag :: "effect option"
  child :: "nat option"
  sibling :: "nat option"
  hooks :: "nat list option"

text \<open>
  What a call does: it returns, it throws, or it is still running when the fuel of the
  model is used up (every loop over heap references takes fuel, since a cyclic heap
  would make it run forever). The exceptions are the \<open>TypeError\<close> of reading a
  property of \<open>null\<close> or \<open>undefined\<close> or of calling what is not a function, the
  \<open>NotFoundError\<close> of \<open>removeChild\<close> on a node that is not a child of the parent, and
  whatever an updater passed to \<open>setState\<close> throws (\<open>Thrown\<close>). The state at a throw
  is not kept.
\<close>

datatype error = TypeError | NotFoundError | Thrown

datatype 'a outcome = isReturns: Returns 'a | Throws error | OutOfFuel

text \<open>
  What \<open>setState\<close> is called with and the queue of a hook holds: a function, which
  applied to a state returns the next state, throws or does not return; or a value that
  is not a function, since \<open>setState\<close> pushes its argument unchecked.
\<close>

datatype action = Updater "jsval \<Rightarrow> jsval outcome" | NotCallable jsval

record hook =
  state :: jsval
  queue :: "action list"

text \<open>
  The backend calls the engine makes (\<open>document.createElement\<close> or \<open>createTextNode\<close>,
  \<open>updateDom\<close>, \<open>appendChild\<close>, \<open>removeChild\<close>). Each call is recorded in a trace,
  together with the fiber it is made for. Of the DOM the model keeps the parent of each
  node (\<open>parentNode\<close>), which is what decides whether \<open>removeChild\<close> throws; the
  properties and listeners that \<open>updateDom\<close> sets are not modelled, nor are the errors
  of \<open>document.createElement\<close> on a tag that is not a name.
\<close>

datatype domop =
    CreateNode nat "kind option"
  | UpdateDom nat props props
  | AppendChild nat nat
  | RemoveChild nat nat

text \<open>
  The global variables of the file (\<open>nextUnitOfWork\<close>, \<open>currentRoot\<close>, \<open>wipRoot\<close>,
  \<open>deletions\<close>, \<open>wipFiber\<close>, \<open>hookIndex\<close>), the heap of fiber objects and of hook cells
  with their allocation counters, the counter of DOM nodes created, the parent of each
  DOM node, and the trace of backend calls. \<open>hookIndex\<close> is \<open>null\<close> until the first component is evaluated; it is
  read only after \<open>wipFiber\<close>, which is \<open>null\<close> for as long, so \<open>0\<close> stands for it.
\<close>

record globals =
  heap :: "nat \<Rightarrow> fiber"
  heapSize :: nat
  cells :: "nat \<Rightarrow> hook"
  cellCount :: nat
  domCount :: nat
  parentNode :: "nat \<Rightarrow> nat option"
  nextUnitOfWork :: "nat option"
  currentRoot :: "nat option"
  wipRoot :: "nat option"
  deletions :: "nat list option"
  wipFiber :: "nat option"
  hookIndex :: nat
  trace :: "(nat \<times> domop) list"

definition blank :: fiber where
  "blank = \<lparr>ftype = None, props = None, domNode = None, parent = None, alternate = None,
            effectTag = None, child = None, sibling = None, hooks = None\<rparr>"

definition init :: "nat \<Rightarrow> globals" where
  "init ndom = \<lparr>heap = (\<lambda>a. blank), heapSize = 0,
                cells = (\<lambda>h. \<lparr>state = VUndefined, queue = []\<rparr>), cellCount = 0,
                domCount = ndom, parentNode = (\<lambda>d. None),
                nextUnitOfWork = None, currentRoot = None, wipRoot = None,
                deletions = None, wipFiber = None, hookIndex = 0, trace = []\<rparr>"

text \<open>An object literal: a new fiber at the next free address.\<close>

definition alloc :: "fiber \<Rightarrow> globals \<Rightarrow> nat \<times> globals" where
  "alloc f g = (heapSize g, g\<lparr>heap := (heap g)(heapSize g := f), heapSize := Suc (heapSize g)\<rparr>)"

text \<open>An assignment to fields of the fiber at an address.\<close>

definition upd :: "nat \<Rightarrow> (fiber \<Rightarrow> fiber) \<Rightarrow> globals \<Rightarrow> globals" where
  "upd a f g = g\<lparr>heap := (heap g)(a := f (heap g a))\<rparr>"

section \<open>The reconciler\<close>

text \<open>
  The fiber the loop body makes for one position: an \<open>UPDATE\<close> fiber that reuses the old
  fiber's DOM node when the kinds are equal, a \<open>PLACEMENT\<close> fiber when there is an element
  of another kind, nothing otherwise. \<open>element.type == oldFiber.type\<close> is equality of
  optional kinds: two strings, two function identities or two \<open>undefined\<close>.
\<close>

definition sameType :: "globals \<Rightarrow> nat option \<Rightarrow> jsval \<Rightarrow> bool" where
  "sameType g oldFiber element =
     (case oldFiber of None \<Rightarrow> False
      | Some old \<Rightarrow> truthy element \<and> jtype element = ftype (heap g old))"

definition newFiberFor :: "nat \<Rightarrow> nat option \<Rightarrow> jsval \<Rightarrow> globals \<Rightarrow> nat option \<times> globals" where
  "newFiberFor w oldFiber element g =
     (case oldFiber of
        Some old \<Rightarrow>
          if sameType g oldFiber element then
            (let (a, g') = alloc (blank\<lparr>ftype := ftype (heap g old), props := jprops element,
                                       domNode := domNode (heap g old), parent := Some w,
                                       alternate := Some old, effectTag := Some UPDATE\<rparr>) g
             in (Some a, g'))
          else if truthy element then
            (let (a, g') = alloc (blank\<lparr>ftype := jtype element, props := jprops element,
                                       domNode := None, parent := Some w,
                                       alternate := None, effectTag := Some PLACEMENT\<rparr>) g
             in (Some a, g'))
          else (None, g)
      | None \<Rightarrow>
          if truthy element then
            (let (a, g') = alloc (blank\<lparr>ftype := jtype element, props := jprops element,
                                       domNode := None, parent := Some w,
                                       alternate := None, effectTag := Some PLACEMENT\<rparr>) g
             in (Some a, g'))
          else (None, g))"

text \<open>
  \<open>oldFiber.effectTag = "DELETION"; deletions.push(oldFiber)\<close>, for an old fiber whose
  position has no element of its kind. \<open>deletions\<close> is \<open>null\<close> before the first \<open>render\<close>.
\<close>

definition markDeletion :: "nat option \<Rightarrow> jsval \<Rightarrow> globals \<Rightarrow> globals outcome" where
  "markDeletion oldFiber element g =
     (case oldFiber of
        None \<Rightarrow> Returns g
      | Some old \<Rightarrow>
          if sameType g oldFiber element then Returns g
          else (case deletions g of
                  None \<Rightarrow> Throws TypeError
                | Some ds \<Rightarrow>
                    Returns ((upd old (\<lambda>f. f\<lparr>effectTag := Some DELETION\<rparr>) g)
                               \<lparr>deletions := Some (ds @ [old])\<rparr>)))"

text \<open>
  \<open>if (index === 0) wipFiber.child = newFiber else if (element) prevSibling.sibling =
  newFiber\<close>: the second assignment throws when \<open>prevSibling\<close> is \<open>null\<close>.
\<close>

definition linkFiber ::
  "nat \<Rightarrow> nat \<Rightarrow> jsval \<Rightarrow> nat option \<Rightarrow> nat option \<Rightarrow> globals \<Rightarrow> globals outcome" where
  "linkFiber w index element prevSibling newFiber g =
     (if index = 0 then Returns (upd w (\<lambda>f. f\<lparr>child := newFiber\<rparr>) g)
      else if truthy element then
        (case prevSibling of
           None \<Rightarrow> Throws TypeError
         | Some p \<Rightarrow> Returns (upd p (\<lambda>f. f\<lparr>sibling := newFiber\<rparr>) g))
      else Returns g)"

text \<open>
  The \<open>while\<close> loop of \<open>reconcileChildren\<close>, from the loop variables \<open>index\<close>, \<open>oldFiber\<close>
  and \<open>prevSibling\<close>. \<open>elements[index]\<close> is \<open>undefined\<close> past the end of the array.
\<close>

fun reconcileLoop ::
  "nat \<Rightarrow> nat \<Rightarrow> jsval list \<Rightarrow> nat \<Rightarrow> nat option \<Rightarrow> nat option \<Rightarrow> globals \<Rightarrow> globals outcome" where
  "reconcileLoop 0 w elements index oldFiber prevSibling g =
     (if index < length elements \<or> oldFiber \<noteq> None then OutOfFuel else Returns g)"
| "reconcileLoop (Suc fuel) w elements index oldFiber prevSibling g =
     (if index < length elements \<or> oldFiber \<noteq> None then
        (let element = (if index < length elements then elements ! index else VUndefined);
             (newFiber, g1) = newFiberFor w oldFiber element g
         in case markDeletion oldFiber element g1 of
              Returns g2 \<Rightarrow>
                (let oldFiber' = (case oldFiber of None \<Rightarrow> None
                                  | Some old \<Rightarrow> sibling (heap g2 old))
                 in case linkFiber w index element prevSibling newFiber g2 of
                      Returns g3 \<Rightarrow>
                        reconcileLoop fuel w elements (Suc index) oldFiber' newFiber g3
                    | Throws e \<Rightarrow> Throws e
                    | OutOfFuel \<Rightarrow> OutOfFuel)
            | Throws e \<Rightarrow> Throws e
            | OutOfFuel \<Rightarrow> OutOfFuel)
      else Returns g)"

definition reconcileChildren :: "nat \<Rightarrow> nat \<Rightarrow> jsval list \<Rightarrow> globals \<Rightarrow> globals outcome" where
  "reconcileChildren fuel w elements g =
     reconcileLoop fuel w elements 0
       (case alternate (heap g w) of None \<Rightarrow> None | Some a \<Rightarrow> child (heap g a))
       None g"

section \<open>The state hook\<close>

text \<open>
  \<open>useState(initial)\<close> returns the state and the \<open>setState\<close> closure. The closure holds
  the hook cell it was made with, so it is modelled by the address of that cell:
  \<open>setState h action\<close> is the call of the closure made with cell \<open>h\<close>.
\<close>

text \<open>
  The hook of the previous evaluation that \<open>useState\<close> continues:
  \<open>wipFiber.alternate && wipFiber.alternate.hooks && wipFiber.alternate.hooks[hookIndex]\<close>,
  which is \<open>undefined\<close> past the end of the array.
\<close>

definition oldHook :: "globals \<Rightarrow> nat \<Rightarrow> nat option" where
  "oldHook g w =
     (case alternate (heap g w) of
        None \<Rightarrow> None
      | Some a \<Rightarrow>
          (case hooks (heap g a) of
             None \<Rightarrow> None
           | Some hs \<Rightarrow> if hookIndex g < length hs then Some (hs ! hookIndex g) else None))"

text \<open>
  \<open>actions.forEach(action => { hook.state = action(hook.state) })\<close>: the call of a
  queued value that is not a function throws, and so does an updater that throws.
\<close>

fun applyActions :: "action list \<Rightarrow> jsval \<Rightarrow> jsval outcome" where
  "applyActions [] s = Returns s"
| "applyActions (Updater f # actions) s =
     (case f s of
        Returns s' \<Rightarrow> applyActions actions s'
      | Throws e \<Rightarrow> Throws e
      | OutOfFuel \<Rightarrow> OutOfFuel)"
| "applyActions (NotCallable v # actions) s = Throws TypeError"

definition useState :: "jsval \<Rightarrow> globals \<Rightarrow> (jsval \<times> nat \<times> globals) outcome" where
  "useState initial g =
     (case wipFiber g of
        None \<Rightarrow> Throws TypeError
      | Some w \<Rightarrow>
          (let st0 = (case oldHook g w of Some old \<Rightarrow> state (cells g old) | None \<Rightarrow> initial);
               actions = (case oldHook g w of Some old \<Rightarrow> queue (cells g old) | None \<Rightarrow> [])
           in case applyActions actions st0 of
                Returns st \<Rightarrow>
                  (let h = cellCount g;
                       g1 = g\<lparr>cells := (cells g)(h := \<lparr>state = st, queue = []\<rparr>),
                              cellCount := Suc h\<rparr>
                   in case hooks (heap g1 w) of
                        None \<Rightarrow> Throws TypeError
                      | Some hs \<Rightarrow>
                          Returns (st, h, (upd w (\<lambda>f. f\<lparr>hooks := Some (hs @ [h])\<rparr>) g1)
                                            \<lparr>hookIndex := Suc (hookIndex g1)\<rparr>))
              | Throws e \<Rightarrow> Throws e
              | OutOfFuel \<Rightarrow> OutOfFuel))"

definition setState :: "nat \<Rightarrow> action \<Rightarrow> globals \<Rightarrow> globals outcome" where
  "setState h action g =
     (let g1 = g\<lparr>cells := (cells g)(h := (cells g h)\<lparr>queue := queue (cells g h) @ [action]\<rparr>)\<rparr>
      in case currentRoot g1 of
           None \<Rightarrow> Throws TypeError
         | Some r \<Rightarrow>
             (let (a, g2) = alloc (blank\<lparr>domNode := domNode (heap g1 r),
                                        props := props (heap g1 r),
                                        alternate := Some r\<rparr>) g1
              in Returns (g2\<lparr>wipRoot := Some a, nextUnitOfWork := Some a,
                             deletions := Some []\<rparr>)))"

text \<open>
  A component function, as the engine sees it: a program that calls \<open>useState\<close> some
  number of times, each call continuing with the state it was given, and returns its
  child description. The \<open>setState\<close> closures it receives are called later, from event
  handlers, which is outside the engine: such a call is \<open>setState\<close> above.
\<close>

datatype comp = Return jsval | UseState jsval "jsval \<Rightarrow> comp"

primrec runComp :: "comp \<Rightarrow> globals \<Rightarrow> (jsval \<times> globals) outcome" where
  "runComp (Return v) = (\<lambda>g. Returns (v, g))"
| "runComp (UseState initial k) =
     (\<lambda>g. case useState initial g of
             Returns (st, h, g1) \<Rightarrow> runComp (k st) g1
           | Throws e \<Rightarrow> Throws e
           | OutOfFuel \<Rightarrow> OutOfFuel)"

section \<open>Units of work\<close>

text \<open>
  \<open>createDom(fiber)\<close>: a new DOM node, then \<open>updateDom(dom, {}, fiber.props)\<close>, which
  throws on \<open>Object.keys(undefined)\<close> when the fiber has no props.
\<close>

definition createDom :: "nat \<Rightarrow> globals \<Rightarrow> (nat \<times> globals) outcome" where
  "createDom fiber g =
     (let d = domCount g;
          g1 = g\<lparr>domCount := Suc d, trace := trace g @ [(fiber, CreateNode d (ftype (heap g fiber)))]\<rparr>
      in case props (heap g1 fiber) of
           None \<Rightarrow> Throws TypeError
         | Some p \<Rightarrow> Returns (d, g1\<lparr>trace := trace g1 @ [(fiber, UpdateDom d ([], []) p)]\<rparr>))"

definition updateHostComponent :: "nat \<Rightarrow> nat \<Rightarrow> globals \<Rightarrow> globals outcome" where
  "updateHostComponent fuel fiber g =
     (case (case domNode (heap g fiber) of
              Some d \<Rightarrow> Returns g
            | None \<Rightarrow> (case createDom fiber g of
                         Returns (d, g1) \<Rightarrow> Returns (upd fiber (\<lambda>f. f\<lparr>domNode := Some d\<rparr>) g1)
                       | Throws e \<Rightarrow> Throws e
                       | OutOfFuel \<Rightarrow> OutOfFuel)) of
        Returns g1 \<Rightarrow>
          (case props (heap g1 fiber) of
             None \<Rightarrow> Throws TypeError
           | Some (attributes, children) \<Rightarrow> reconcileChildren fuel fiber children g1)
      | Throws e \<Rightarrow> Throws e
      | OutOfFuel \<Rightarrow> OutOfFuel)"

text \<open>
  \<open>updateFunctionComponent(fiber)\<close>, with the component bodies \<open>C\<close>: \<open>C c p\<close> is the run
  of component \<open>c\<close> on the props \<open>p\<close>.
\<close>

definition updateFunctionComponent ::
  "(nat \<Rightarrow> props option \<Rightarrow> comp) \<Rightarrow> nat \<Rightarrow> nat \<Rightarrow> globals \<Rightarrow> globals outcome" where
  "updateFunctionComponent C fuel fiber g =
     (let g1 = (upd fiber (\<lambda>f. f\<lparr>hooks := Some []\<rparr>) (g\<lparr>wipFiber := Some fiber, hookIndex := 0\<rparr>))
      in case ftype (heap g1 fiber) of
           Some (Component c) \<Rightarrow>
             (case runComp (C c (props (heap g1 fiber))) g1 of
                Returns (v, g2) \<Rightarrow> reconcileChildren fuel fiber [v] g2
              | Throws e \<Rightarrow> Throws e
              | OutOfFuel \<Rightarrow> OutOfFuel)
         | Some (Host t) \<Rightarrow> Throws TypeError
         | None \<Rightarrow> Throws TypeError)"

text \<open>The walk to the next unit: the first sibling found on the way up.\<close>

fun nextSibling :: "nat \<Rightarrow> (nat \<Rightarrow> fiber) \<Rightarrow> nat option \<Rightarrow> nat option outcome" where
  "nextSibling fuel h None = Returns None"
| "nextSibling 0 h (Some f) = OutOfFuel"
| "nextSibling (Suc fuel) h (Some f) =
     (case sibling (h f) of
        Some s \<Rightarrow> Returns (Some s)
      | None \<Rightarrow> nextSibling fuel h (parent (h f)))"

definition isFunctionComponent :: "fiber \<Rightarrow> bool" where
  "isFunctionComponent f = (case ftype f of Some (Component c) \<Rightarrow> True | _ \<Rightarrow> False)"

definition performUnitOfWork ::
  "(nat \<Rightarrow> props option \<Rightarrow> comp) \<Rightarrow> nat \<Rightarrow> nat \<Rightarrow> globals \<Rightarrow> (nat option \<times> globals) outcome" where
  "performUnitOfWork C fuel fiber g =
     (case (if isFunctionComponent (heap g fiber) then updateFunctionComponent C fuel fiber g
            else updateHostComponent fuel fiber g) of
        Returns g1 \<Rightarrow>
          (case child (heap g1 fiber) of
             Some c \<Rightarrow> Returns (Some c, g1)
           | None \<Rightarrow>
               (case nextSibling fuel (heap g1) (Some fiber) of
                  Returns n \<Rightarrow> Returns (n, g1)
                | Throws e \<Rightarrow> Throws e
                | OutOfFuel \<Rightarrow> OutOfFuel))
      | Throws e \<Rightarrow> Throws e
      | OutOfFuel \<Rightarrow> OutOfFuel)"

section \<open>Commit\<close>

text \<open>
  The search for the DOM parent in \<open>commitWork\<close>, from \<open>fiber.parent\<close>: it throws when
  it runs out of parents.
\<close>

fun domParentOf :: "nat \<Rightarrow> (nat \<Rightarrow> fiber) \<Rightarrow> nat option \<Rightarrow> nat outcome" where
  "domParentOf fuel h None = Throws TypeError"
| "domParentOf fuel h (Some p) =
     (case domNode (h p) of
        Some d \<Rightarrow> Returns d
      | None \<Rightarrow> (case fuel of 0 \<Rightarrow> OutOfFuel | Suc n \<Rightarrow> domParentOf n h (parent (h p))))"

text \<open>
  \<open>domParent.appendChild(dom)\<close> moves the node under the parent;
  \<open>domParent.removeChild(dom)\<close> throws unless the node is a child of the parent. (The
  error of attaching a node under one of its own descendants is not modelled.)
\<close>

definition appendChild :: "nat \<Rightarrow> nat \<Rightarrow> nat \<Rightarrow> globals \<Rightarrow> globals" where
  "appendChild f domParent d g =
     g\<lparr>parentNode := (parentNode g)(d := Some domParent),
       trace := trace g @ [(f, AppendChild domParent d)]\<rparr>"

definition removeChild :: "nat \<Rightarrow> nat \<Rightarrow> nat \<Rightarrow> globals \<Rightarrow> globals outcome" where
  "removeChild f domParent d g =
     (if parentNode g d = Some domParent then
        Returns (g\<lparr>parentNode := (parentNode g)(d := None),
                   trace := trace g @ [(f, RemoveChild domParent d)]\<rparr>)
      else Throws NotFoundError)"

fun commitDeletion :: "nat \<Rightarrow> nat option \<Rightarrow> nat \<Rightarrow> globals \<Rightarrow> globals outcome" where
  "commitDeletion fuel None domParent g = Throws TypeError"
| "commitDeletion fuel (Some f) domParent g =
     (case domNode (heap g f) of
        Some d \<Rightarrow> removeChild f domParent d g
      | None \<Rightarrow> (case fuel of 0 \<Rightarrow> OutOfFuel
                 | Suc n \<Rightarrow> commitDeletion n (child (heap g f)) domParent g))"

text \<open>The effect of \<open>commitWork\<close> on one fiber, before it goes on to the child.\<close>

definition commitEffect :: "nat \<Rightarrow> nat \<Rightarrow> nat \<Rightarrow> globals \<Rightarrow> globals outcome" where
  "commitEffect fuel f domParent g =
     (let fib = heap g f in
      if effectTag fib = Some PLACEMENT \<and> domNode fib \<noteq> None then
        (case domNode fib of
           Some d \<Rightarrow> Returns (appendChild f domParent d g)
         | None \<Rightarrow> Returns g)
      else if effectTag fib = Some UPDATE \<and> domNode fib \<noteq> None then
        (case (domNode fib, alternate fib) of
           (Some d, Some a) \<Rightarrow>
             (case (props (heap g a), props fib) of
                (Some prev, Some nxt) \<Rightarrow> Returns (g\<lparr>trace := trace g @ [(f, UpdateDom d prev nxt)]\<rparr>)
              | _ \<Rightarrow> Throws TypeError)
         | _ \<Rightarrow> Throws TypeError)
      else if effectTag fib = Some DELETION then commitDeletion fuel (Some f) domParent g
      else Returns g)"

fun commitWork :: "nat \<Rightarrow> nat option \<Rightarrow> globals \<Rightarrow> globals outcome" where
  "commitWork fuel None g = Returns g"
| "commitWork 0 (Some f) g = OutOfFuel"
| "commitWork (Suc fuel) (Some f) g =
     (case domParentOf fuel (heap g) (parent (heap g f)) of
        Returns domParent \<Rightarrow>
          (case commitEffect fuel f domParent g of
             Returns g1 \<Rightarrow>
               (case commitWork fuel (child (heap g1 f)) g1 of
                  Returns g2 \<Rightarrow> commitWork fuel (sibling (heap g2 f)) g2
                | Throws e \<Rightarrow> Throws e
                | OutOfFuel \<Rightarrow> OutOfFuel)
           | Throws e \<Rightarrow> Throws e
           | OutOfFuel \<Rightarrow> OutOfFuel)
      | Throws e \<Rightarrow> Throws e
      | OutOfFuel \<Rightarrow> OutOfFuel)"

text \<open>\<open>deletions.forEach(commitWork)\<close>.\<close>

fun commitEach :: "nat \<Rightarrow> nat list \<Rightarrow> globals \<Rightarrow> globals outcome" where
  "commitEach fuel [] g = Returns g"
| "commitEach fuel (f # fs) g =
     (case commitWork fuel (Some f) g of
        Returns g1 \<Rightarrow> commitEach fuel fs g1
      | Throws e \<Rightarrow> Throws e
      | OutOfFuel \<Rightarrow> OutOfFuel)"

definition commitRoot :: "nat \<Rightarrow> globals \<Rightarrow> globals outcome" where
  "commitRoot fuel g =
     (case deletions g of
        None \<Rightarrow> Throws TypeError
      | Some ds \<Rightarrow>
          (case commitEach fuel ds g of
             Returns g1 \<Rightarrow>
               (case wipRoot g1 of
                  None \<Rightarrow> Throws TypeError
                | Some r \<Rightarrow>
                    (case commitWork fuel (child (heap g1 r)) g1 of
                       Returns g2 \<Rightarrow> Returns (g2\<lparr>currentRoot := wipRoot g2, wipRoot := None\<rparr>)
                     | Throws e \<Rightarrow> Throws e
                     | OutOfFuel \<Rightarrow> OutOfFuel))
           | Throws e \<Rightarrow> Throws e
           | OutOfFuel \<Rightarrow> OutOfFuel))"

section \<open>Render and the work loop\<close>

definition render :: "jsval \<Rightarrow> nat option \<Rightarrow> globals \<Rightarrow> globals" where
  "render element container g =
     (let (a, g1) = alloc (blank\<lparr>domNode := container, props := Some ([], [element]),
                                alternate := currentRoot g\<rparr>) g
      in g1\<lparr>wipRoot := Some a, deletions := Some [], nextUnitOfWork := Some a\<rparr>)"

text \<open>
  The \<open>while\<close> loop of \<open>workLoop(deadline)\<close>: \<open>deadline i\<close> is what the \<open>i\<close>-th call of
  \<open>deadline.timeRemaining()\<close> in this tick returns, \<open>shouldYield\<close> is the loop variable.
\<close>

fun workUnits ::
  "(nat \<Rightarrow> props option \<Rightarrow> comp) \<Rightarrow> nat \<Rightarrow> nat \<Rightarrow> (nat \<Rightarrow> real) \<Rightarrow> nat \<Rightarrow> bool \<Rightarrow> globals \<Rightarrow>
   globals outcome" where
  "workUnits C k 0 deadline i shouldYield g =
     (if nextUnitOfWork g \<noteq> None \<and> \<not> shouldYield then OutOfFuel else Returns g)"
| "workUnits C k (Suc fuel) deadline i shouldYield g =
     (case nextUnitOfWork g of
        None \<Rightarrow> Returns g
      | Some u \<Rightarrow>
          if shouldYield then Returns g
          else (case performUnitOfWork C k u g of
                  Returns (n, g1) \<Rightarrow>
                    workUnits C k fuel deadline (Suc i) (deadline i < 1) (g1\<lparr>nextUnitOfWork := n\<rparr>)
                | Throws e \<Rightarrow> Throws e
                | OutOfFuel \<Rightarrow> OutOfFuel))"

text \<open>
  One tick of \<open>workLoop\<close>. The call of \<open>requestIdleCallback\<close> that ends it hands the next
  tick to the host, which is outside the model.
\<close>

definition workLoop ::
  "(nat \<Rightarrow> props option \<Rightarrow> comp) \<Rightarrow> nat \<Rightarrow> (nat \<Rightarrow> real) \<Rightarrow> globals \<Rightarrow> globals outcome" where
  "workLoop C fuel deadline g =
     (case workUnits C fuel fuel deadline 0 False g of
        Returns g1 \<Rightarrow>
          if nextUnitOfWork g1 = None \<and> wipRoot g1 \<noteq> None then commitRoot fuel g1
          else Returns g1
      | Throws e \<Rightarrow> Throws e
      | OutOfFuel \<Rightarrow> OutOfFuel)"

section \<open>The application of the source, and the runs the theorems are tried on\<close>

text \<open>
  The component of the source, with the initial state as a parameter:
  \<open>function Counter() { const [state, setState] = Creact.useState(1); return <h1
  onClick={() => setState(c => c + 1)}>Count: {state} </h1> }\<close>. The JSX has three
  children: the text, the state and the blank before the comment. The handler is an
  opaque function value.
\<close>

definition counter :: "jsval \<Rightarrow> props option \<Rightarrow> comp" where
  "counter initial p =
     UseState initial
       (\<lambda>st. Return (createElement (Host ''h1'') (Some [(''onClick'', VFun 0)])
                        [VStr ''Count: '', st, VStr '' '']))"

definition Counter :: "props option \<Rightarrow> comp" where
  "Counter = counter (VNum 1)"

text \<open>Component bodies: every component is the counter; or there are none in use.\<close>

definition counterApp :: "jsval \<Rightarrow> nat \<Rightarrow> props option \<Rightarrow> comp" where
  "counterApp initial c = counter initial"

definition noComponents :: "nat \<Rightarrow> props option \<Rightarrow> comp" where
  "noComponents c p = Return VNull"

text \<open>\<open>const element = <Counter />\<close>.\<close>

definition element :: jsval where
  "element = createElement (Component 0) None []"

text \<open>
  The updaters \<open>c => c + 1\<close> and \<open>x => x * 2\<close>, on numbers. What JavaScript makes of
  other operands is not modelled: they are left as they are, and no theorem applies
  the updaters to them.
\<close>

definition increment :: "jsval \<Rightarrow> jsval" where
  "increment c = (case c of VNum n \<Rightarrow> VNum (n + 1) | _ \<Rightarrow> c)"

definition double :: "jsval \<Rightarrow> jsval" where
  "double x = (case x of VNum n \<Rightarrow> VNum (n * 2) | _ \<Rightarrow> x)"

text \<open>An updater that returns: a function on values, as an argument of \<open>setState\<close>.\<close>

definition updater :: "(jsval \<Rightarrow> jsval) \<Rightarrow> action" where
  "updater f = Updater (\<lambda>s. Returns (f s))"

text \<open>
  Deadlines: one that always has time left, and one that has none, so that the work
  loop yields after each unit.
\<close>

definition full :: "nat \<Rightarrow> real" where
  "full i = 50"

definition hurried :: "nat \<Rightarrow> real" where
  "hurried i = 0"

definition thenRun :: "globals outcome \<Rightarrow> (globals \<Rightarrow> globals outcome) \<Rightarrow> globals outcome" where
  "thenRun r k = (case r of Returns g \<Rightarrow> k g | Throws e \<Rightarrow> Throws e | OutOfFuel \<Rightarrow> OutOfFuel)"

text \<open>The state a run ends in (the initial state stands for a run that does not return).\<close>

fun stateOf :: "globals outcome \<Rightarrow> globals" where
  "stateOf (Returns g) = g"
| "stateOf (Throws e) = init 0"
| "stateOf OutOfFuel = init 0"

text \<open>
  A \<open>div\<close> rendered into container \<open>0\<close> and committed; then a \<open>span\<close> rendered in its
  place, with all units of work done and the commit still to come.
\<close>

definition divMounted :: globals where
  "divMounted =
     stateOf (workLoop noComponents 5 full
                (render (createElement (Host ''div'') None []) (Some 0) (init 1)))"

definition spanRendered :: globals where
  "spanRendered = render (createElement (Host ''span'') None []) (Some 0) divMounted"

definition spanPending :: globals where
  "spanPending = stateOf (workUnits noComponents 5 5 full 0 False spanRendered)"

text \<open>
  A \<open>section\<close> with children \<open>div, div, span\<close> committed; then the same section with
  children \<open>div, span\<close> rendered, with the unit of work of the root done: the next unit
  is the new section fiber, at address \<open>6\<close>.
\<close>

definition section3 :: jsval where
  "section3 = createElement (Host ''section'') None
     [createElement (Host ''div'') None [], createElement (Host ''div'') None [],
      createElement (Host ''span'') None []]"

definition section2 :: jsval where
  "section2 = createElement (Host ''section'') None
     [createElement (Host ''div'') None [], createElement (Host ''span'') None []]"

definition sectionMounted :: globals where
  "sectionMounted = stateOf (workLoop noComponents 9 full (render section3 (Some 0) (init 1)))"

definition sectionAgain :: globals where
  "sectionAgain =
     stateOf (workUnits noComponents 9 9 hurried 0 False (render section2 (Some 0) sectionMounted))"

text \<open>
  The counter of the source, rendered and committed; and a counter that starts at \<open>3\<close>,
  committed, after \<open>setState(x => x * 2)\<close> and \<open>setState(c => c + 1)\<close> on its hook cell
  (cell \<open>0\<close>), with the unit of work of the new root done, at the point where
  \<open>updateFunctionComponent\<close> calls the component for the fiber at address \<open>8\<close>.
\<close>

definition counterMounted :: globals where
  "counterMounted = stateOf (workLoop (counterApp (VNum 1)) 9 full (render element (Some 0) (init 1)))"

definition threeMounted :: globals where
  "threeMounted = stateOf (workLoop (counterApp (VNum 3)) 9 full (render element (Some 0) (init 1)))"

definition threeQueued :: globals where
  "threeQueued =
     stateOf (thenRun (setState 0 (updater double) threeMounted) (setState 0 (updater increment)))"

definition threeEvaluating :: globals where
  "threeEvaluating =
     upd 8 (\<lambda>f. f\<lparr>hooks := Some []\<rparr>)
       ((stateOf (workUnits (counterApp (VNum 3)) 9 9 hurried 0 False threeQueued))
          \<lparr>wipFiber := Some 8, hookIndex := 0\<rparr>)"

text \<open>
  The \<open>span\<close> pass after the unit of work of its root (the fiber at address \<open>2\<close>); and
  the second \<open>section\<close> pass with all units of work done and the commit still to come.
\<close>

definition spanFirstUnit :: globals where
  "spanFirstUnit = stateOf (map_outcome snd (performUnitOfWork noComponents 5 2 spanRendered))"

definition sectionPending :: globals where
  "sectionPending =
     stateOf (workUnits noComponents 9 9 full 0 False (render section2 (Some 0) sectionMounted))"

text \<open>\<open>div [null, span]\<close>, as \<open>createElement\<close> builds it.\<close>

definition nullFirst :: jsval where
  "nullFirst = createElement (Host ''div'') None [VNull, createElement (Host ''span'') None []]"

text \<open>
  A \<open>section\<close> holding a list \<open>ul\<close> with items \<open>a, b\<close> and a list \<open>ol\<close> with item \<open>i\<close>,
  committed; then the same with \<open>p\<close> in the place of \<open>a\<close> and \<open>em\<close> in the place of \<open>i\<close>
  rendered, with all units of work done and the commit still to come.
\<close>

definition lists1 :: jsval where
  "lists1 = createElement (Host ''section'') None
     [createElement (Host ''ul'') None
        [createElement (Host ''a'') None [], createElement (Host ''b'') None []],
      createElement (Host ''ol'') None [createElement (Host ''i'') None []]]"

definition lists2 :: jsval where
  "lists2 = createElement (Host ''section'') None
     [createElement (Host ''ul'') None
        [createElement (Host ''p'') None [], createElement (Host ''b'') None []],
      createElement (Host ''ol'') None [createElement (Host ''em'') None []]]"

definition listsMounted :: globals where
  "listsMounted = stateOf (workLoop noComponents 9 full (render lists1 (Some 0) (init 1)))"

definition listsPending :: globals where
  "listsPending =
     stateOf (workUnits noComponents 9 9 full 0 False (render lists2 (Some 0) listsMounted))"







section \<open>What a render pass may touch\<close>

text \<open>
  Fibers are never freed and every object literal takes the next address, so the
  fibers of the pass in progress are those from its root \<open>n0\<close> on, and the fibers of all
  earlier trees (the current tree among them) are those below \<open>n0\<close>.

  \<open>onlyTagged g g' a\<close>: between \<open>g\<close> and \<open>g'\<close> the fiber at \<open>a\<close> has changed in no field
  but \<open>effectTag\<close>, and that one only to \<open>DELETION\<close>.
\<close>

definition onlyTagged :: "globals \<Rightarrow> globals \<Rightarrow> nat \<Rightarrow> bool" where
  "onlyTagged g g' a \<longleftrightarrow>
     heap g' a = (heap g a)\<lparr>effectTag := effectTag (heap g' a)\<rparr> \<and>
     (effectTag (heap g' a) = effectTag (heap g a) \<or> effectTag (heap g' a) = Some DELETION)"

text \<open>A fiber of an earlier tree: its child and sibling are fibers of earlier trees.\<close>

definition oldOk :: "nat \<Rightarrow> fiber \<Rightarrow> bool" where
  "oldOk n0 f \<longleftrightarrow>
     (\<forall>c. child f = Some c \<longrightarrow> c < n0) \<and> (\<forall>s. sibling f = Some s \<longrightarrow> s < n0)"

text \<open>
  A fiber of the pass in progress, with \<open>n\<close> fibers allocated: its child and sibling are
  fibers of the pass other than the root, its parent is a fiber of the pass, its
  alternate is a fiber of an earlier tree, and it is not tagged \<open>DELETION\<close>.
\<close>

definition newOk :: "nat \<Rightarrow> nat \<Rightarrow> fiber \<Rightarrow> bool" where
  "newOk n0 n f \<longleftrightarrow>
     (\<forall>c. child f = Some c \<longrightarrow> n0 < c \<and> c < n) \<and>
     (\<forall>s. sibling f = Some s \<longrightarrow> n0 < s \<and> s < n) \<and>
     (\<forall>p. parent f = Some p \<longrightarrow> n0 \<le> p \<and> p < n) \<and>
     (\<forall>a. alternate f = Some a \<longrightarrow> a < n0) \<and>
     effectTag f \<noteq> Some DELETION"

definition inPass :: "nat \<Rightarrow> globals \<Rightarrow> bool" where
  "inPass n0 g \<longleftrightarrow>
     n0 < heapSize g \<and>
     (\<forall>a<n0. oldOk n0 (heap g a)) \<and>
     (\<forall>a. n0 \<le> a \<and> a < heapSize g \<longrightarrow> newOk n0 (heapSize g) (heap g a)) \<and>
     (\<exists>ds. deletions g = Some ds \<and> (\<forall>d\<in>set ds. d < n0))"

text \<open>
  The invariant of a pass whose root is at \<open>n0\<close>, between units of work; and the
  invariant of the engine at rest, from which \<open>render\<close> and \<open>setState\<close> start a pass.
\<close>

definition passInv :: "nat \<Rightarrow> globals \<Rightarrow> bool" where
  "passInv n0 g \<longleftrightarrow>
     inPass n0 g \<and> wipRoot g = Some n0 \<and>
     (\<forall>u. nextUnitOfWork g = Some u \<longrightarrow> n0 \<le> u \<and> u < heapSize g) \<and>
     (\<forall>r. currentRoot g = Some r \<longrightarrow> r < n0)"

definition closedHeap :: "globals \<Rightarrow> bool" where
  "closedHeap g \<longleftrightarrow>
     (\<forall>a<heapSize g. oldOk (heapSize g) (heap g a)) \<and>
     (\<forall>r. currentRoot g = Some r \<longrightarrow> r < heapSize g)"

fun isRemoval :: "domop \<Rightarrow> bool" where
  "isRemoval (RemoveChild p d) = True"
| "isRemoval (CreateNode d k) = False"
| "isRemoval (UpdateDom d prev nxt) = False"
| "isRemoval (AppendChild p d) = False"

text \<open>
  \<open>ownWrites u g g'\<close>: what the evaluation of the fiber \<open>u\<close> writes apart from the
  reconciliation of its children: its own \<open>dom\<close> and \<open>hooks\<close> fields, and new hook cells.
\<close>

definition ownWrites :: "nat \<Rightarrow> globals \<Rightarrow> globals \<Rightarrow> bool" where
  "ownWrites u g g' \<longleftrightarrow>
     heapSize g' = heapSize g \<and> deletions g' = deletions g \<and> wipRoot g' = wipRoot g \<and>
     nextUnitOfWork g' = nextUnitOfWork g \<and> currentRoot g' = currentRoot g \<and>
     (\<forall>a. a \<noteq> u \<longrightarrow> heap g' a = heap g a) \<and>
     (\<exists>d h. heap g' u = (heap g u)\<lparr>domNode := d, hooks := h\<rparr>) \<and>
     cellCount g \<le> cellCount g' \<and> (\<forall>x<cellCount g. cells g' x = cells g x)"


text \<open>
  \<open>built H n0 first els\<close>: in the heap \<open>H\<close> the chain of siblings that starts at \<open>first\<close>
  is a chain of fibers of earlier trees (below \<open>n0\<close>) built from the descriptions \<open>els\<close>:
  one fiber for each description, of the kind of the description, a host element, and
  with a chain of children built from the children of the description.
\<close>

fun built :: "(nat \<Rightarrow> fiber) \<Rightarrow> nat \<Rightarrow> nat option \<Rightarrow> jsval list \<Rightarrow> bool" where
  "built H n0 None [] = True"
| "built H n0 (Some a) (VObj (Host t) attrs cs # es) =
     (a < n0 \<and> ftype (H a) = Some (Host t) \<and>
      built H n0 (child (H a)) cs \<and> built H n0 (sibling (H a)) es)"
| "built H n0 old es = False"

text \<open>
  A fiber of the pass whose children are still to be reconciled, or have been, against
  a chain built from the same descriptions: it is not a component, it has an alternate
  in an earlier tree, and the children of the alternate are built from the children in
  its props.
\<close>

definition matched :: "(nat \<Rightarrow> fiber) \<Rightarrow> nat \<Rightarrow> fiber \<Rightarrow> bool" where
  "matched H n0 f \<longleftrightarrow>
     \<not> isFunctionComponent f \<and>
     (case (alternate f, props f) of
        (Some a, Some (attrs, cs)) \<Rightarrow> a < n0 \<and> built H n0 (child (H a)) cs
      | _ \<Rightarrow> False)"

text \<open>
  The invariant of a pass that renders again the descriptions the current tree was built
  from: the fibers of earlier trees are as they were when the pass began (\<open>H\<close>), nothing
  is to be deleted, and every fiber of the pass is matched and, the root apart, tagged
  \<open>UPDATE\<close>.
\<close>

definition rerendering :: "(nat \<Rightarrow> fiber) \<Rightarrow> nat \<Rightarrow> globals \<Rightarrow> bool" where
  "rerendering H n0 g \<longleftrightarrow>
     deletions g = Some [] \<and> (\<forall>a<n0. heap g a = H a) \<and>
     (\<forall>f. n0 \<le> f \<and> f < heapSize g \<longrightarrow> matched H n0 (heap g f)) \<and>
     (\<forall>f. n0 < f \<and> f < heapSize g \<longrightarrow> effectTag (heap g f) = Some UPDATE)"

section \<open>Evaluation of concrete runs\<close>

lemmas engine_defs = init_def alloc_def upd_def blank_def createElement_def createTextElement_def
  sameType_def newFiberFor_def markDeletion_def linkFiber_def reconcileChildren_def
  oldHook_def useState_def setState_def createDom_def updateHostComponent_def
  updateFunctionComponent_def isFunctionComponent_def performUnitOfWork_def
  commitEffect_def commitRoot_def render_def workLoop_def
  counter_def Counter_def counterApp_def noComponents_def element_def full_def hurried_def
  thenRun_def updater_def appendChild_def removeChild_def Let_def

lemmas run_defs = divMounted_def spanRendered_def spanPending_def section3_def section2_def
  sectionMounted_def sectionAgain_def counterMounted_def threeMounted_def threeQueued_def
  threeEvaluating_def spanFirstUnit_def sectionPending_def lists1_def lists2_def
  listsMounted_def listsPending_def nullFirst_def

lemma returns_stateOf: "isReturns r \<Longrightarrow> r = Returns (stateOf r)"
  by (cases r) auto

section \<open>Descriptions built by createElement\<close>

text \<open>
  What \<open>createElement\<close> does with its children, by the test the code makes: a child
  whose \<open>typeof\<close> is not "object" is replaced by a text description (kind
  \<open>TEXT_ELEMENT\<close>, attribute \<open>nodeValue\<close> equal to the child, no children), and a child
  whose \<open>typeof\<close> is "object" is kept as it is, in its place.
\<close>

lemma createElement_children:
  assumes "createElement type attributes children = VObj k a c"
  shows "k = type \<and> length c = length children \<and>
         (\<forall>i<length children.
            (typeof (children ! i) \<noteq> ''object'' \<longrightarrow>
               jtype (c ! i) = Some (Host ''TEXT_ELEMENT'') \<and>
               jprops (c ! i) = Some ([(''nodeValue'', children ! i)], [])) \<and>
            (typeof (children ! i) = ''object'' \<longrightarrow> c ! i = children ! i))"
  using assms by (auto simp: createElement_def createTextElement_def)

text \<open>
  C9. The claim is that every child argument that is not an object is replaced by a
  text description. \<open>null\<close> is not an object, but its \<open>typeof\<close> is "object", and the test
  of the code is on \<open>typeof\<close>: in \<open>createElement("div", null, null, "x")\<close> the string
  becomes a text description and the \<open>null\<close> stays in the children as it is, where the
  claim has a text description with \<open>nodeValue\<close> \<open>null\<close>.
\<close>

theorem createElement_keeps_null:
  "createElement (Host ''div'') None [VNull, VStr ''x''] =
     VObj (Host ''div'') []
       [VNull, VObj (Host ''TEXT_ELEMENT'') [(''nodeValue'', VStr ''x'')] []] \<and>
   typeof VNull = ''object'' \<and>
   createElement (Host ''div'') None [VNull, VStr ''x''] \<noteq>
     VObj (Host ''div'') []
       [VObj (Host ''TEXT_ELEMENT'') [(''nodeValue'', VNull)] [],
        VObj (Host ''TEXT_ELEMENT'') [(''nodeValue'', VStr ''x'')] []]"
  by (simp add: createElement_def createTextElement_def)

text \<open>
  The \<open>null\<close> that is kept is not a description the reconciler can handle in every
  position: for a fiber with no alternate and the children \<open>[null, e]\<close>, the first round
  of the loop leaves \<open>prevSibling\<close> at \<open>null\<close> and the second fails on
  \<open>prevSibling.sibling = newFiber\<close>. Rendering \<open>div [null, span]\<close> throws.
\<close>

lemma reconcileChildren_null_first:
  assumes "alternate (heap g w) = None" and "truthy e"
  shows "reconcileChildren (Suc (Suc n)) w [VNull, e] g = Throws TypeError"
  using assms
  by (simp add: reconcileChildren_def newFiberFor_def markDeletion_def linkFiber_def
      alloc_def upd_def Let_def)

lemma render_nullFirst_throws:
  "nullFirst = VObj (Host ''div'') [] [VNull, VObj (Host ''span'') [] []] \<and>
   workLoop noComponents 9 full (render nullFirst (Some 0) (init 1)) = Throws TypeError"
  by (simp add: run_defs engine_defs eval_nat_numeral)

section \<open>Commit\<close>

text \<open>
  The commit phase writes nothing but the parents of DOM nodes and the trace of backend
  calls.
\<close>

lemma commitDeletion_frame:
  "commitDeletion fuel fo dp g = Returns g' \<Longrightarrow>
   g' = g\<lparr>parentNode := parentNode g', trace := trace g'\<rparr>"
proof (induction fuel arbitrary: fo)
  case 0
  then show ?case by (cases fo) (auto simp: removeChild_def fun_upd_def split: option.splits if_splits)
next
  case (Suc n)
  then show ?case by (cases fo) (auto simp: removeChild_def fun_upd_def split: option.splits if_splits)
qed

lemma commitEffect_frame:
  "commitEffect fuel f dp g = Returns g' \<Longrightarrow>
   g' = g\<lparr>parentNode := parentNode g', trace := trace g'\<rparr>"
  by (auto simp: commitEffect_def appendChild_def Let_def simp del: commitDeletion.simps
        split: if_splits option.splits dest: commitDeletion_frame)

lemma commitWork_frame:
  "commitWork fuel fo g = Returns g' \<Longrightarrow>
   g' = g\<lparr>parentNode := parentNode g', trace := trace g'\<rparr>"
proof (induction fuel fo g arbitrary: g' rule: commitWork.induct)
  case (1 fuel g)
  then show ?case by simp
next
  case (2 f g)
  then show ?case by simp
next
  case (3 fuel f g)
  from "3.prems" obtain dp g1 g2 where
    dp: "domParentOf fuel (heap g) (parent (heap g f)) = Returns dp" and
    e: "commitEffect fuel f dp g = Returns g1" and
    c: "commitWork fuel (child (heap g1 f)) g1 = Returns g2" and
    s: "commitWork fuel (sibling (heap g2 f)) g2 = Returns g'"
    by (auto split: outcome.splits)
  have 1: "g1 = g\<lparr>parentNode := parentNode g1, trace := trace g1\<rparr>"
    using e by (rule commitEffect_frame)
  have 2: "g2 = g1\<lparr>parentNode := parentNode g2, trace := trace g2\<rparr>"
    using "3.IH"(1) dp e c by blast
  have 3: "g' = g2\<lparr>parentNode := parentNode g', trace := trace g'\<rparr>"
    using "3.IH"(2) dp e c s by blast
  show ?case by (subst 3, subst 2, subst 1) simp
qed

lemma commitEach_frame:
  "commitEach fuel fs g = Returns g' \<Longrightarrow>
   g' = g\<lparr>parentNode := parentNode g', trace := trace g'\<rparr>"
proof (induction fs arbitrary: g)
  case Nil
  then show ?case by simp
next
  case (Cons f fs)
  from Cons.prems obtain g1 where a: "commitWork fuel (Some f) g = Returns g1"
    and b: "commitEach fuel fs g1 = Returns g'"
    by (auto split: outcome.splits)
  have 1: "g1 = g\<lparr>parentNode := parentNode g1, trace := trace g1\<rparr>"
    using a by (rule commitWork_frame)
  have 2: "g' = g1\<lparr>parentNode := parentNode g', trace := trace g'\<rparr>"
    using Cons.IH b by blast
  show ?case by (subst 2, subst 1) simp
qed

text \<open>
  C3, as the code has it. When \<open>commitRoot\<close> returns, the work-in-progress root has
  become the current root and \<open>wipRoot\<close> is \<open>null\<close>. The deletions list is left as it
  was: the code empties it when the next pass starts (in \<open>render\<close> and in \<open>setState\<close>),
  not at the end of the commit.
\<close>

theorem commitRoot_swaps_roots:
  assumes "commitRoot fuel g = Returns g'"
  shows "currentRoot g' = wipRoot g \<and> wipRoot g \<noteq> None \<and> wipRoot g' = None \<and>
         deletions g' = deletions g"
proof -
  from assms obtain ds g1 r g2 where
    d: "deletions g = Some ds" and
    a: "commitEach fuel ds g = Returns g1" and
    w: "wipRoot g1 = Some r" and
    b: "commitWork fuel (child (heap g1 r)) g1 = Returns g2" and
    g': "g' = g2\<lparr>currentRoot := wipRoot g2, wipRoot := None\<rparr>"
    by (auto simp: commitRoot_def split: option.splits outcome.splits)
  have 1: "g1 = g\<lparr>parentNode := parentNode g1, trace := trace g1\<rparr>"
    using a by (rule commitEach_frame)
  have 2: "g2 = g1\<lparr>parentNode := parentNode g2, trace := trace g2\<rparr>"
    using b by (rule commitWork_frame)
  have "wipRoot g2 = wipRoot g" "deletions g2 = deletions g"
    by (subst 2, subst 1, simp)+
  moreover have "wipRoot g = Some r" using w by (subst (asm) 1) simp
  ultimately show ?thesis using g' by simp
qed

lemma render_empties_deletions: "deletions (render e c g) = Some []"
  by (simp add: render_def alloc_def Let_def)

lemma spanPending_run:
  "let g = spanPending in
     wipRoot g = Some 2 \<and> deletions g = Some [1] \<and> isReturns (commitRoot 5 g) \<and>
     deletions (stateOf (commitRoot 5 g)) = Some [1]"
  by (simp add: run_defs engine_defs eval_nat_numeral)

theorem commitRoot_swaps_roots_witness:
  "isReturns (commitRoot 5 spanPending) \<and>
   currentRoot (stateOf (commitRoot 5 spanPending)) = Some 2 \<and>
   wipRoot spanPending = Some 2 \<and>
   wipRoot (stateOf (commitRoot 5 spanPending)) = None \<and>
   deletions spanPending = Some [1] \<and>
   deletions (stateOf (commitRoot 5 spanPending)) = Some [1]"
proof -
  have r: "isReturns (commitRoot 5 spanPending)" and w: "wipRoot spanPending = Some 2"
    and d: "deletions spanPending = Some [1]"
    using spanPending_run by (simp_all add: Let_def)
  show ?thesis using commitRoot_swaps_roots [OF returns_stateOf [OF r]] r w d by simp
qed

text \<open>
  The claim as the specification states it fails: after the commit of the \<open>span\<close> that
  replaces the \<open>div\<close>, the deletions list still holds the old \<open>div\<close> fiber.
\<close>

theorem commitRoot_keeps_deletions_counterexample:
  "isReturns (commitRoot 5 spanPending) \<and>
   deletions (stateOf (commitRoot 5 spanPending)) = Some [1]"
  using spanPending_run by (simp add: Let_def)

section \<open>The state hook\<close>

text \<open>
  C10. A \<open>setState\<close> closure reads \<open>currentRoot.dom\<close> and \<open>currentRoot.props\<close>: with no
  current root (no pass has committed) the call throws the \<open>TypeError\<close> of a read from
  \<open>null\<close>, and with a current root it returns, having queued the action and set up a new
  work-in-progress root whose alternate is the current root.
\<close>

theorem setState_needs_current_root:
  "(currentRoot g = None \<longrightarrow> setState h action g = Throws TypeError) \<and>
   (\<forall>r. currentRoot g = Some r \<longrightarrow>
      (\<exists>g'. setState h action g = Returns g' \<and>
            wipRoot g' = Some (heapSize g) \<and> nextUnitOfWork g' = Some (heapSize g) \<and>
            deletions g' = Some [] \<and>
            heap g' (heapSize g) =
              blank\<lparr>domNode := domNode (heap g r), props := props (heap g r), alternate := Some r\<rparr> \<and>
            queue (cells g' h) = queue (cells g h) @ [action]))"
  unfolding setState_def alloc_def Let_def by simp

lemma counterMounted_run:
  "let g = counterMounted in
     wipFiber g = Some 1 \<and> hooks (heap g 1) = Some [0] \<and> oldHook g 1 = None \<and>
     nextUnitOfWork g = None \<and> wipRoot g = None \<and> currentRoot g = Some 0 \<and> heapSize g = 6 \<and>
     map_outcome fst (useState (VNum 5) g) = Returns (VNum 5)"
  by (simp add: run_defs engine_defs eval_nat_numeral)

theorem setState_needs_current_root_witness:
  "currentRoot counterMounted = Some 0 \<and>
   isReturns (setState 0 (updater increment) counterMounted) \<and>
   wipRoot (stateOf (setState 0 (updater increment) counterMounted)) = Some 6 \<and>
   currentRoot (init 1) = None \<and>
   setState 0 (updater increment) (init 1) = Throws TypeError"
proof -
  have c: "currentRoot counterMounted = Some 0" and n: "heapSize counterMounted = 6"
    using counterMounted_run by (simp_all add: Let_def)
  have i: "currentRoot (init 1) = None" by (simp add: init_def)
  from setState_needs_current_root [of counterMounted 0 "updater increment"] c
  obtain g' where "setState 0 (updater increment) counterMounted = Returns g'"
    and "wipRoot g' = Some (heapSize counterMounted)"
    by blast
  then have "isReturns (setState 0 (updater increment) counterMounted) \<and>
   wipRoot (stateOf (setState 0 (updater increment) counterMounted)) = Some 6" using n by simp
  moreover from setState_needs_current_root [of "init 1" 0 "updater increment"] i
  have "setState 0 (updater increment) (init 1) = Throws TypeError" by blast
  ultimately show ?thesis using c i by simp
qed

text \<open>The current root is set by the commit, and by nothing else.\<close>

lemma render_keeps_currentRoot: "currentRoot (render e c g) = currentRoot g"
  by (simp add: render_def alloc_def Let_def)

lemma init_currentRoot: "currentRoot (init n) = None"
  by (simp add: init_def)

lemma render_keeps_wipFiber: "wipFiber (render e c g) = wipFiber g"
  by (simp add: render_def alloc_def Let_def)

text \<open>
  C8, as the code has it. \<open>useState\<close> raises no error of hook identity: the code has no
  check of it. With no component evaluated yet (\<open>wipFiber\<close> is \<open>null\<close>) the call throws
  the \<open>TypeError\<close> of a read from \<open>null\<close>. Once a component has been evaluated,
  \<open>wipFiber\<close> keeps that fiber and its hooks array: a call for which the alternate has no
  hook at the current index (outside a component evaluation after the first pass, or a
  hook call beyond those of the previous evaluation) returns the initial value and
  appends a new hook cell to that fiber.
\<close>

theorem useState_makes_no_check:
  "(wipFiber g = None \<longrightarrow> useState initial g = Throws TypeError) \<and>
   (\<forall>w hs. wipFiber g = Some w \<and> hooks (heap g w) = Some hs \<and> oldHook g w = None \<longrightarrow>
      (\<exists>g'. useState initial g = Returns (initial, cellCount g, g') \<and>
            hooks (heap g' w) = Some (hs @ [cellCount g]) \<and>
            hookIndex g' = Suc (hookIndex g)))"
  unfolding useState_def upd_def Let_def by simp

theorem useState_makes_no_check_witness:
  "wipFiber counterMounted = Some 1 \<and> hooks (heap counterMounted 1) = Some [0] \<and>
   nextUnitOfWork counterMounted = None \<and> wipRoot counterMounted = None \<and>
   oldHook counterMounted 1 = None \<and>
   map_outcome fst (useState (VNum 5) counterMounted) = Returns (VNum 5) \<and>
   wipFiber (init 1) = None \<and> useState (VNum 5) (init 1) = Throws TypeError"
proof -
  have w: "wipFiber counterMounted = Some 1" and h: "hooks (heap counterMounted 1) = Some [0]"
    and o: "oldHook counterMounted 1 = None"
    and n: "nextUnitOfWork counterMounted = None" "wipRoot counterMounted = None"
    using counterMounted_run by (simp_all add: Let_def)
  have i: "wipFiber (init 1) = None" by (simp add: init_def)
  from useState_makes_no_check [of counterMounted "VNum 5"] w h o
  obtain g' where "useState (VNum 5) counterMounted = Returns (VNum 5, cellCount counterMounted, g')"
    by blast
  then have "map_outcome fst (useState (VNum 5) counterMounted) = Returns (VNum 5)"
    by simp
  moreover from useState_makes_no_check [of "init 1" "VNum 5"] i
  have "useState (VNum 5) (init 1) = Throws TypeError" by blast
  ultimately show ?thesis using w h o n i by simp
qed

text \<open>
  The claim as the specification states it fails: when the counter is committed and no
  unit of work is pending, \<open>useState(5)\<close> returns \<open>5\<close>.
\<close>

theorem useState_outside_evaluation_counterexample:
  "nextUnitOfWork counterMounted = None \<and> wipRoot counterMounted = None \<and>
   map_outcome fst (useState (VNum 5) counterMounted) = Returns (VNum 5)"
  using counterMounted_run by (simp add: Let_def)

text \<open>
  What a queued value does to the next \<open>useState\<close> of its hook: a value that is not a
  function, or an updater that throws, makes the call throw.
\<close>

lemma applyActions_updaters:
  "applyActions (map updater fs) s = Returns (fold (\<lambda>f s. f s) fs s)"
  by (induction fs arbitrary: s) (simp_all add: updater_def)

lemma applyActions_not_callable:
  "applyActions (map updater fs @ NotCallable v # rest) s = Throws TypeError"
  by (induction fs arbitrary: s) (simp_all add: updater_def)

lemma useState_throws_with_queue:
  assumes "wipFiber g = Some w" and "oldHook g w = Some old"
    and "applyActions (queue (cells g old)) (state (cells g old)) = Throws e"
  shows "useState initial g = Throws e"
  using assms unfolding useState_def Let_def by simp

text \<open>
  C4. When \<open>useState\<close> runs for a fiber whose alternate has a hook at the current index,
  and the queue of that hook holds the updaters \<open>fs\<close> (functions that return), the state
  it returns, and stores in the new hook cell, is the state of the alternate's hook with
  every queued updater applied to it in the order they were queued. With the updaters
  \<open>x => x * 2\<close> and \<open>c => c + 1\<close> queued on a state of \<open>3\<close>, the state is \<open>7\<close>.
\<close>

theorem useState_folds_queue:
  assumes "wipFiber g = Some w" and "hooks (heap g w) = Some hs"
    and "alternate (heap g w) = Some a" and "hooks (heap g a) = Some olds"
    and "hookIndex g < length olds"
    and "queue (cells g (olds ! hookIndex g)) = map updater fs"
  shows "\<exists>g'. useState initial g =
                Returns (fold (\<lambda>action s. action s) fs (state (cells g (olds ! hookIndex g))),
                         cellCount g, g') \<and>
              state (cells g' (cellCount g)) =
                fold (\<lambda>action s. action s) fs (state (cells g (olds ! hookIndex g))) \<and>
              queue (cells g' (cellCount g)) = [] \<and>
              hooks (heap g' w) = Some (hs @ [cellCount g])"
  using assms unfolding useState_def oldHook_def upd_def Let_def
  by (simp add: applyActions_updaters)

lemma threeEvaluating_run:
  "let g = threeEvaluating in
     wipFiber g = Some 8 \<and> hooks (heap g 8) = Some [] \<and> alternate (heap g 8) = Some 1 \<and>
     hooks (heap g 1) = Some [0] \<and> hookIndex g = 0 \<and> state (cells g 0) = VNum 3 \<and>
     queue (cells g 0) = [Updater (\<lambda>s. Returns (double s)), Updater (\<lambda>s. Returns (increment s))]"
  by (simp add: run_defs engine_defs eval_nat_numeral)

theorem useState_folds_queue_witness:
  "wipFiber threeEvaluating = Some 8 \<and> hooks (heap threeEvaluating 8) = Some [] \<and>
   alternate (heap threeEvaluating 8) = Some 1 \<and> hooks (heap threeEvaluating 1) = Some [0] \<and>
   hookIndex threeEvaluating = 0 \<and>
   state (cells threeEvaluating 0) = VNum 3 \<and>
   queue (cells threeEvaluating 0) = map updater [double, increment] \<and>
   map_outcome fst (useState (VNum 3) threeEvaluating) = Returns (VNum 7)"
proof -
  have 1: "wipFiber threeEvaluating = Some 8" and 2: "hooks (heap threeEvaluating 8) = Some []"
    and 3: "alternate (heap threeEvaluating 8) = Some 1"
    and 4: "hooks (heap threeEvaluating 1) = Some [0]"
    and 5: "hookIndex threeEvaluating = 0"
    and 6: "state (cells threeEvaluating 0) = VNum 3"
    and 7: "queue (cells threeEvaluating 0) = map updater [double, increment]"
    using threeEvaluating_run by (simp_all add: Let_def updater_def)
  have 8: "hookIndex threeEvaluating < length [0::nat]" using 5 by simp
  have 9: "queue (cells threeEvaluating ([0] ! hookIndex threeEvaluating))
             = map updater [double, increment]"
    using 5 7 by simp
  from useState_folds_queue [OF 1 2 3 4 8 9, of "VNum 3"]
  obtain g' where "useState (VNum 3) threeEvaluating =
      Returns (fold (\<lambda>action s. action s) [double, increment]
                 (state (cells threeEvaluating ([0] ! hookIndex threeEvaluating))),
               cellCount threeEvaluating, g')"
    by blast
  then have "map_outcome fst (useState (VNum 3) threeEvaluating) = Returns (VNum 7)"
    using 5 6 by (simp add: double_def increment_def)
  then show ?thesis using 1 2 3 4 5 6 7 by simp
qed

text \<open>
  The same through a whole pass: the counter that starts at \<open>3\<close>, with both updaters
  queued, is rendered and committed by one tick of the work loop; the hook cell of the
  component fiber of the new current tree holds \<open>7\<close>.
\<close>

lemma three_doubled_incremented:
  "let g = stateOf (workLoop (counterApp (VNum 3)) 9 full threeQueued) in
     currentRoot g = Some 7 \<and> wipRoot g = None \<and> child (heap g 7) = Some 8 \<and>
     hooks (heap g 8) = Some [1] \<and> state (cells g 1) = VNum 7"
  by (simp add: run_defs engine_defs eval_nat_numeral double_def increment_def)

section \<open>The reconciler\<close>

lemma jtype_truthy: "jtype e = Some k \<Longrightarrow> truthy e"
  by (cases e) auto

lemma reconcileLoop_done:
  "length elements \<le> index \<Longrightarrow>
   reconcileLoop fuel w elements index None prevSibling g = Returns g"
  by (cases fuel) auto

text \<open>
  C1. The parent fiber \<open>w\<close> has an alternate whose child chain is \<open>a, b, c\<close> of kinds
  \<open>div, div, span\<close>; the new child descriptions have kinds \<open>div, span\<close>. Then
  \<open>reconcileChildren\<close> returns, the new child chain of \<open>w\<close> is exactly two new fibers,
  an \<open>UPDATE\<close> of \<open>a\<close> and a \<open>PLACEMENT\<close> of kind \<open>span\<close> with no sibling after it, and
  exactly \<open>b\<close> and \<open>c\<close> are appended to the deletions list.
\<close>

theorem reconcile_div_div_span:
  assumes alt: "alternate (heap g w) = Some p"
    and chain: "child (heap g p) = Some a" "sibling (heap g a) = Some b"
      "sibling (heap g b) = Some c" "sibling (heap g c) = None"
    and old: "ftype (heap g a) = Some (Host ''div'')" "ftype (heap g b) = Some (Host ''div'')"
      "ftype (heap g c) = Some (Host ''span'')"
    and new: "jtype e0 = Some (Host ''div'')" "jtype e1 = Some (Host ''span'')"
    and dels: "deletions g = Some ds"
    and allocated: "w < heapSize g" "a < heapSize g" "b < heapSize g" "c < heapSize g"
    and apart: "w \<noteq> a" "w \<noteq> b" "w \<noteq> c"
    and fuel: "3 \<le> fuel"
  shows "\<exists>g'. reconcileChildren fuel w [e0, e1] g = Returns g' \<and>
           heapSize g' = heapSize g + 2 \<and>
           child (heap g' w) = Some (heapSize g) \<and>
           heap g' (heapSize g) =
             blank\<lparr>ftype := Some (Host ''div''), props := jprops e0,
                   domNode := domNode (heap g a), parent := Some w, alternate := Some a,
                   effectTag := Some UPDATE, sibling := Some (heapSize g + 1)\<rparr> \<and>
           heap g' (heapSize g + 1) =
             blank\<lparr>ftype := Some (Host ''span''), props := jprops e1, parent := Some w,
                   effectTag := Some PLACEMENT\<rparr> \<and>
           deletions g' = Some (ds @ [b, c]) \<and>
           effectTag (heap g' b) = Some DELETION \<and> effectTag (heap g' c) = Some DELETION"
proof -
  obtain n where n: "fuel = Suc (Suc (Suc n))"
    using fuel by (metis add_Suc_right le_Suc_ex numeral_3_eq_3 add.commute add_Suc)
  have t: "truthy e0" "truthy e1" using new by (auto intro: jtype_truthy)
  have ne: "a \<noteq> b" "b \<noteq> c" "a \<noteq> c" using chain by auto
  show ?thesis
    using alt chain old new dels allocated t ne apart
    by (simp add: n reconcileChildren_def newFiberFor_def sameType_def markDeletion_def
          linkFiber_def alloc_def upd_def blank_def Let_def reconcileLoop_done)
qed

lemma sectionAgain_run:
  "let g = sectionAgain in
     alternate (heap g 6) = Some 1 \<and> child (heap g 1) = Some 2 \<and>
     sibling (heap g 2) = Some 3 \<and> sibling (heap g 3) = Some 4 \<and> sibling (heap g 4) = None \<and>
     ftype (heap g 2) = Some (Host ''div'') \<and> ftype (heap g 3) = Some (Host ''div'') \<and>
     ftype (heap g 4) = Some (Host ''span'') \<and>
     props (heap g 6) = Some ([], [VObj (Host ''div'') [] [], VObj (Host ''span'') [] []]) \<and>
     nextUnitOfWork g = Some 6 \<and> deletions g = Some [] \<and> heapSize g = 7"
  by (simp add: run_defs engine_defs eval_nat_numeral)

theorem reconcile_div_div_span_witness:
  "alternate (heap sectionAgain 6) = Some 1 \<and> child (heap sectionAgain 1) = Some 2 \<and>
   sibling (heap sectionAgain 2) = Some 3 \<and> sibling (heap sectionAgain 3) = Some 4 \<and>
   sibling (heap sectionAgain 4) = None \<and>
   map (\<lambda>a. ftype (heap sectionAgain a)) [2, 3, 4]
     = [Some (Host ''div''), Some (Host ''div''), Some (Host ''span'')] \<and>
   deletions sectionAgain = Some [] \<and> heapSize sectionAgain = 7 \<and>
   isReturns (reconcileChildren 3 6 [VObj (Host ''div'') [] [], VObj (Host ''span'') [] []]
                sectionAgain) \<and>
   (let g' = stateOf (reconcileChildren 3 6
                        [VObj (Host ''div'') [] [], VObj (Host ''span'') [] []] sectionAgain)
    in child (heap g' 6) = Some 7 \<and>
       effectTag (heap g' 7) = Some UPDATE \<and> alternate (heap g' 7) = Some 2 \<and>
       sibling (heap g' 7) = Some 8 \<and>
       effectTag (heap g' 8) = Some PLACEMENT \<and> sibling (heap g' 8) = None \<and>
       deletions g' = Some [3, 4])"
proof -
  have 1: "alternate (heap sectionAgain 6) = Some 1"
    and 2: "child (heap sectionAgain 1) = Some 2" "sibling (heap sectionAgain 2) = Some 3"
      "sibling (heap sectionAgain 3) = Some 4" "sibling (heap sectionAgain 4) = None"
    and 3: "ftype (heap sectionAgain 2) = Some (Host ''div'')"
      "ftype (heap sectionAgain 3) = Some (Host ''div'')"
      "ftype (heap sectionAgain 4) = Some (Host ''span'')"
    and 5: "deletions sectionAgain = Some []"
    and 6: "heapSize sectionAgain = 7"
    using sectionAgain_run by (simp_all add: Let_def)
  have 4: "jtype (VObj (Host ''div'') [] []) = Some (Host ''div'')"
    "jtype (VObj (Host ''span'') [] []) = Some (Host ''span'')" by simp_all
  have 7: "(6::nat) < heapSize sectionAgain" "(2::nat) < heapSize sectionAgain"
    "(3::nat) < heapSize sectionAgain" "(4::nat) < heapSize sectionAgain"
    "(6::nat) \<noteq> 2" "(6::nat) \<noteq> 3" "(6::nat) \<noteq> 4" "(3::nat) \<le> 3"
    using 6 by simp_all
  from reconcile_div_div_span [OF 1 2 3 4 5 7]
  obtain g' where r: "reconcileChildren 3 6
        [VObj (Host ''div'') [] [], VObj (Host ''span'') [] []] sectionAgain = Returns g'"
    and c: "child (heap g' 6) = Some (heapSize sectionAgain)"
    and u: "heap g' (heapSize sectionAgain) =
             blank\<lparr>ftype := Some (Host ''div''), props := jprops (VObj (Host ''div'') [] []),
                   domNode := domNode (heap sectionAgain 2), parent := Some 6,
                   alternate := Some 2, effectTag := Some UPDATE,
                   sibling := Some (heapSize sectionAgain + 1)\<rparr>"
    and p: "heap g' (heapSize sectionAgain + 1) =
             blank\<lparr>ftype := Some (Host ''span''), props := jprops (VObj (Host ''span'') [] []),
                   parent := Some 6, effectTag := Some PLACEMENT\<rparr>"
    and d: "deletions g' = Some ([] @ [3, 4])"
    by blast
  show ?thesis using 1 2 3 5 6 r c u p d by (simp add: blank_def)
qed

section \<open>What a unit of work writes\<close>

lemma newFiberFor_cases:
  assumes "newFiberFor w old e g = (nf, g1)"
  shows "(nf = None \<and> g1 = g) \<or>
         (\<exists>f. nf = Some (heapSize g) \<and>
               g1 = g\<lparr>heap := (heap g)(heapSize g := f), heapSize := Suc (heapSize g)\<rparr> \<and>
               parent f = Some w \<and> child f = None \<and> sibling f = None \<and>
               (effectTag f = Some UPDATE \<and> alternate f = old \<and> old \<noteq> None \<or>
                effectTag f = Some PLACEMENT \<and> alternate f = None))"
  using assms
  by (auto simp: newFiberFor_def alloc_def blank_def Let_def split: option.splits if_splits)

lemma markDeletion_cases:
  assumes "markDeletion old e g = Returns g2"
  shows "g2 = g \<or>
         (\<exists>x ds. old = Some x \<and> deletions g = Some ds \<and>
                 g2 = g\<lparr>heap := (heap g)(x := (heap g x)\<lparr>effectTag := Some DELETION\<rparr>),
                        deletions := Some (ds @ [x])\<rparr>)"
  using assms
  by (auto simp: markDeletion_def upd_def split: option.splits if_splits)

lemma linkFiber_cases:
  assumes "linkFiber w i e prev nf g = Returns g3"
  shows "g3 = g \<or>
         g3 = g\<lparr>heap := (heap g)(w := (heap g w)\<lparr>child := nf\<rparr>)\<rparr> \<or>
         (\<exists>p. prev = Some p \<and> g3 = g\<lparr>heap := (heap g)(p := (heap g p)\<lparr>sibling := nf\<rparr>)\<rparr>)"
  using assms
  by (auto simp: linkFiber_def upd_def split: option.splits if_splits)

lemma reconcileLoop_step:
  assumes "reconcileLoop (Suc fuel) w els i old prev g = Returns g'"
    and "i < length els \<or> old \<noteq> None"
  obtains e nf g1 g2 g3 where
    "newFiberFor w old e g = (nf, g1)" "markDeletion old e g1 = Returns g2"
    "linkFiber w i e prev nf g2 = Returns g3"
    "reconcileLoop fuel w els (Suc i)
       (case old of None \<Rightarrow> None | Some x \<Rightarrow> sibling (heap g2 x)) nf g3 = Returns g'"
  using assms
  by (auto simp: Let_def split: prod.splits outcome.splits if_splits)

lemma onlyTagged_refl: "onlyTagged g g a"
  by (simp add: onlyTagged_def)

lemma onlyTagged_trans: "onlyTagged g g1 a \<Longrightarrow> onlyTagged g1 g2 a \<Longrightarrow> onlyTagged g g2 a"
  unfolding onlyTagged_def
  by (metis fiber.update_convs(6) fiber.surjective fiber.simps(6) fiber.select_convs(6))


lemma reconcileLoop_frame:
  assumes "reconcileLoop fuel w els i old prev g = Returns g'"
    and "a < heapSize g" "a \<noteq> w" "prev \<noteq> Some a"
  shows "onlyTagged g g' a \<and> heapSize g \<le> heapSize g'"
  using assms
proof (induction fuel arbitrary: i old prev g)
  case 0
  then have "g' = g" by (simp split: if_splits)
  then show ?case by (simp add: onlyTagged_refl)
next
  case (Suc fuel)
  show ?case
  proof (cases "i < length els \<or> old \<noteq> None")
    case False
    with Suc.prems(1) have "g' = g" by simp
    then show ?thesis by (simp add: onlyTagged_refl)
  next
    case True
    from Suc.prems(1) True obtain e nf g1 g2 g3 where
      n: "newFiberFor w old e g = (nf, g1)" and m: "markDeletion old e g1 = Returns g2" and
      l: "linkFiber w i e prev nf g2 = Returns g3" and
      r: "reconcileLoop fuel w els (Suc i)
            (case old of None \<Rightarrow> None | Some x \<Rightarrow> sibling (heap g2 x)) nf g3 = Returns g'"
      by (rule reconcileLoop_step)
    have 1: "heap g1 a = heap g a" "heapSize g \<le> heapSize g1" "nf \<noteq> Some a"
      using newFiberFor_cases [OF n] Suc.prems(2) by auto
    have 2: "onlyTagged g1 g2 a" "heapSize g2 = heapSize g1"
      using markDeletion_cases [OF m] by (auto simp: onlyTagged_def)
    have 3: "heap g3 a = heap g2 a" "heapSize g3 = heapSize g2"
      using linkFiber_cases [OF l] Suc.prems(3,4) by (auto split: if_splits)
    have 4: "onlyTagged g g3 a" using 1 2 3 by (simp add: onlyTagged_def)
    have "onlyTagged g3 g' a \<and> heapSize g3 \<le> heapSize g'"
      using Suc.IH [OF r] 1 2 3 Suc.prems(2,3) by simp
    then show ?thesis using 4 1 2 3 by (auto intro: onlyTagged_trans)
  qed
qed

lemma reconcileLoop_globals:
  assumes "reconcileLoop fuel w els i old prev g = Returns g'"
  shows "g' = g\<lparr>heap := heap g', heapSize := heapSize g', deletions := deletions g'\<rparr>"
  using assms
proof (induction fuel arbitrary: i old prev g)
  case 0
  then have "g' = g" by (simp split: if_splits)
  then show ?case by simp
next
  case (Suc fuel)
  show ?case
  proof (cases "i < length els \<or> old \<noteq> None")
    case False
    with Suc.prems(1) have "g' = g" by simp
    then show ?thesis by simp
  next
    case True
    from Suc.prems(1) True obtain e nf g1 g2 g3 where
      n: "newFiberFor w old e g = (nf, g1)" and m: "markDeletion old e g1 = Returns g2" and
      l: "linkFiber w i e prev nf g2 = Returns g3" and
      r: "reconcileLoop fuel w els (Suc i)
            (case old of None \<Rightarrow> None | Some x \<Rightarrow> sibling (heap g2 x)) nf g3 = Returns g'"
      by (rule reconcileLoop_step)
    have 1: "g1 = g\<lparr>heap := heap g1, heapSize := heapSize g1, deletions := deletions g1\<rparr>"
      using newFiberFor_cases [OF n] by auto
    have 2: "g2 = g1\<lparr>heap := heap g2, heapSize := heapSize g2, deletions := deletions g2\<rparr>"
      using markDeletion_cases [OF m] by auto
    have 3: "g3 = g2\<lparr>heap := heap g3, heapSize := heapSize g3, deletions := deletions g3\<rparr>"
      using linkFiber_cases [OF l] by auto
    have 4: "g' = g3\<lparr>heap := heap g', heapSize := heapSize g', deletions := deletions g'\<rparr>"
      using Suc.IH [OF r] .
    show ?thesis by (subst 4, subst 3, subst 2, subst 1) simp
  qed
qed

lemma ownWrites_refl: "ownWrites u g g"
  unfolding ownWrites_def
  by (auto intro!: exI [of _ "domNode (heap g u)"] exI [of _ "hooks (heap g u)"])

lemma ownWrites_trans:
  assumes "ownWrites u g g1" "ownWrites u g1 g2"
  shows "ownWrites u g g2"
proof -
  from assms obtain d h d' h' where
    1: "heap g1 u = (heap g u)\<lparr>domNode := d, hooks := h\<rparr>" and
    2: "heap g2 u = (heap g1 u)\<lparr>domNode := d', hooks := h'\<rparr>"
    unfolding ownWrites_def by blast
  have "heap g2 u = (heap g u)\<lparr>domNode := d', hooks := h'\<rparr>" using 1 2 by simp
  then show ?thesis using assms unfolding ownWrites_def by auto
qed

lemma useState_ownWrites:
  assumes "useState initial g = Returns (st, h, g1)" and "wipFiber g = Some u"
  shows "ownWrites u g g1 \<and> wipFiber g1 = Some u"
  using assms unfolding useState_def upd_def Let_def ownWrites_def
  by (auto split: option.splits outcome.splits intro!: exI [of _ "domNode (heap g u)"])

lemma runComp_ownWrites:
  "runComp c g = Returns (v, g') \<Longrightarrow> wipFiber g = Some u \<Longrightarrow> ownWrites u g g'"
proof (induction c arbitrary: g)
  case (Return x)
  then show ?case by (simp add: ownWrites_refl)
next
  case (UseState initial k)
  from UseState.prems(1) obtain st h g1 where
    a: "useState initial g = Returns (st, h, g1)" and b: "runComp (k st) g1 = Returns (v, g')"
    by (auto split: outcome.splits)
  from useState_ownWrites [OF a UseState.prems(2)]
  have c: "ownWrites u g g1" and d: "wipFiber g1 = Some u" by simp_all
  have "ownWrites u g1 g'" using UseState.IH [OF _ b d] by (simp add: rangeI)
  with c show ?case by (rule ownWrites_trans)
qed

lemma createDom_cases:
  "createDom u g = Returns (d, g1) \<Longrightarrow>
   g1 = g\<lparr>domCount := domCount g1, trace := trace g1\<rparr>"
  by (auto simp: createDom_def Let_def split: option.splits)

text \<open>
  A unit of work is the evaluation of its fiber, which writes the fiber's own \<open>dom\<close> and
  \<open>hooks\<close> and new hook cells, followed by the reconciliation of its children.
\<close>

lemma updateHostComponent_split:
  assumes "updateHostComponent fuel u g = Returns g'"
  obtains g1 els where "ownWrites u g g1" "reconcileChildren fuel u els g1 = Returns g'"
proof -
  from assms obtain g1 a els where
    1: "(case domNode (heap g u) of
              Some d \<Rightarrow> Returns g
            | None \<Rightarrow> (case createDom u g of
                         Returns (d, g1) \<Rightarrow> Returns (upd u (\<lambda>f. f\<lparr>domNode := Some d\<rparr>) g1)
                       | Throws e \<Rightarrow> Throws e
                       | OutOfFuel \<Rightarrow> OutOfFuel)) = Returns g1"
    and 2: "props (heap g1 u) = Some (a, els)"
    and 3: "reconcileChildren fuel u els g1 = Returns g'"
    unfolding updateHostComponent_def by (auto split: outcome.splits option.splits)
  have "ownWrites u g g1"
  proof (cases "domNode (heap g u)")
    case (Some d)
    with 1 show ?thesis by (simp add: ownWrites_refl)
  next
    case None
    with 1 obtain d g0 where c: "createDom u g = Returns (d, g0)"
      and g1: "g1 = upd u (\<lambda>f. f\<lparr>domNode := Some d\<rparr>) g0"
      by (auto split: outcome.splits)
    have e: "g0 = g\<lparr>domCount := domCount g0, trace := trace g0\<rparr>"
      using c by (rule createDom_cases)
    have "heap g0 = heap g" "heapSize g0 = heapSize g" "deletions g0 = deletions g"
      "wipRoot g0 = wipRoot g" "nextUnitOfWork g0 = nextUnitOfWork g"
      "currentRoot g0 = currentRoot g" "cells g0 = cells g" "cellCount g0 = cellCount g"
      by (subst e, simp)+
    then show ?thesis
      unfolding ownWrites_def g1 upd_def
      by (auto intro!: exI [of _ "Some d"] exI [of _ "hooks (heap g u)"])
  qed
  then show ?thesis using 3 that by blast
qed

lemma updateFunctionComponent_split:
  assumes "updateFunctionComponent C fuel u g = Returns g'"
  obtains g1 els where "ownWrites u g g1" "reconcileChildren fuel u els g1 = Returns g'"
proof -
  define g0 where "g0 = upd u (\<lambda>f. f\<lparr>hooks := Some []\<rparr>) (g\<lparr>wipFiber := Some u, hookIndex := 0\<rparr>)"
  from assms obtain c v g1 where
    1: "runComp (C c (props (heap g0 u))) g0 = Returns (v, g1)"
    and 2: "reconcileChildren fuel u [v] g1 = Returns g'"
    unfolding updateFunctionComponent_def Let_def g0_def [symmetric]
    by (auto split: outcome.splits option.splits kind.splits)
  have a: "ownWrites u g g0"
    unfolding ownWrites_def g0_def upd_def
    by (auto intro!: exI [of _ "domNode (heap g u)"] exI [of _ "Some []"])
  have "wipFiber g0 = Some u" by (simp add: g0_def upd_def)
  with 1 have "ownWrites u g0 g1" by (rule runComp_ownWrites)
  with a have "ownWrites u g g1" by (rule ownWrites_trans)
  then show ?thesis using 2 that by blast
qed

lemma performUnitOfWork_split:
  assumes "performUnitOfWork C fuel u g = Returns (n, g')"
  obtains g1 els where "ownWrites u g g1" "reconcileChildren fuel u els g1 = Returns g'"
    "n = child (heap g' u) \<and> n \<noteq> None \<or>
     child (heap g' u) = None \<and> nextSibling fuel (heap g') (Some u) = Returns n"
proof -
  from assms have
    1: "(if isFunctionComponent (heap g u) then updateFunctionComponent C fuel u g
         else updateHostComponent fuel u g) = Returns g'"
    unfolding performUnitOfWork_def
    by (auto split: outcome.splits option.splits simp del: nextSibling.simps)
  with assms have
    2: "n = child (heap g' u) \<and> n \<noteq> None \<or>
     child (heap g' u) = None \<and> nextSibling fuel (heap g') (Some u) = Returns n"
    unfolding performUnitOfWork_def
    by (cases "child (heap g' u)")
       (auto split: outcome.splits simp del: nextSibling.simps)
  from 1 obtain g1 els where "ownWrites u g g1" "reconcileChildren fuel u els g1 = Returns g'"
    by (cases "isFunctionComponent (heap g u)")
       (auto elim: updateFunctionComponent_split updateHostComponent_split)
  then show ?thesis using 2 that by blast
qed

text \<open>
  C2, as the code has it. The fibers of the current tree are not read-only during a
  render pass: \<open>reconcileChildren\<close> writes \<open>effectTag = "DELETION"\<close> into each fiber of the
  previous tree that it appends to the deletions list. That is its only write to them:
  of a fiber that existed before a unit of work, other than the fiber the unit works
  on, no field changes but \<open>effectTag\<close>, and that one only to \<open>DELETION\<close>; no existing
  hook cell changes, and the current root stays.
\<close>

theorem render_phase_writes:
  assumes "performUnitOfWork C fuel u g = Returns (n, g')"
    and "a < heapSize g" and "a \<noteq> u"
  shows "onlyTagged g g' a \<and> (\<forall>h<cellCount g. cells g' h = cells g h) \<and>
         currentRoot g' = currentRoot g"
proof -
  from assms(1) obtain g1 els where
    o: "ownWrites u g g1" and r: "reconcileChildren fuel u els g1 = Returns g'"
    by (rule performUnitOfWork_split)
  have 1: "heap g1 a = heap g a" "heapSize g1 = heapSize g"
    "\<forall>h<cellCount g. cells g1 h = cells g h" "currentRoot g1 = currentRoot g"
    using o assms(3) unfolding ownWrites_def by auto
  have l: "reconcileLoop fuel u els 0
             (case alternate (heap g1 u) of None \<Rightarrow> None | Some x \<Rightarrow> child (heap g1 x))
             None g1 = Returns g'"
    using r by (simp add: reconcileChildren_def)
  have "onlyTagged g1 g' a"
    using reconcileLoop_frame [OF l, of a] assms(2,3) 1 by simp
  then have 2: "onlyTagged g g' a" using 1 by (simp add: onlyTagged_def)
  have e: "g' = g1\<lparr>heap := heap g', heapSize := heapSize g', deletions := deletions g'\<rparr>"
    using l by (rule reconcileLoop_globals)
  have "cells g' = cells g1" "currentRoot g' = currentRoot g1"
    by (subst e, simp)+
  then show ?thesis using 1 2 by simp
qed

lemma spanRendered_run:
  "let g = spanRendered in
     heapSize g = 3 \<and> currentRoot g = Some 0 \<and> child (heap g 0) = Some 1 \<and>
     effectTag (heap g 1) = Some PLACEMENT \<and> nextUnitOfWork g = Some 2 \<and>
     props (heap g 2) = Some ([], [VObj (Host ''span'') [] []]) \<and>
     isReturns (performUnitOfWork noComponents 5 2 g) \<and>
     effectTag (heap (stateOf (map_outcome snd (performUnitOfWork noComponents 5 2 g))) 1)
       = Some DELETION \<and>
     isReturns (reconcileChildren 5 2 [VObj (Host ''span'') [] []] g) \<and>
     effectTag (heap (stateOf (reconcileChildren 5 2 [VObj (Host ''span'') [] []] g)) 1)
       = Some DELETION"
  by (simp add: run_defs engine_defs eval_nat_numeral)

theorem render_phase_writes_witness:
  "isReturns (performUnitOfWork noComponents 5 2 spanRendered) \<and>
   heapSize spanRendered = 3 \<and>
   onlyTagged spanRendered spanFirstUnit 1 \<and>
   effectTag (heap spanRendered 1) = Some PLACEMENT \<and>
   effectTag (heap spanFirstUnit 1) = Some DELETION \<and>
   onlyTagged spanRendered spanFirstUnit 0 \<and>
   currentRoot spanFirstUnit = currentRoot spanRendered"
proof -
  have r: "isReturns (performUnitOfWork noComponents 5 2 spanRendered)"
    and n: "heapSize spanRendered = 3"
    and p: "effectTag (heap spanRendered 1) = Some PLACEMENT"
    and d: "effectTag (heap spanFirstUnit 1) = Some DELETION"
    using spanRendered_run by (simp_all add: Let_def spanFirstUnit_def)
  from r obtain nx g' where
    e: "performUnitOfWork noComponents 5 2 spanRendered = Returns (nx, g')"
    by (cases "performUnitOfWork noComponents 5 2 spanRendered") auto
  then have g': "spanFirstUnit = g'" by (simp add: spanFirstUnit_def)
  have "onlyTagged spanRendered g' 1 \<and> currentRoot g' = currentRoot spanRendered"
    using render_phase_writes [OF e, of 1] n by simp
  moreover have "onlyTagged spanRendered g' 0"
    using render_phase_writes [OF e, of 0] n by simp
  ultimately show ?thesis using r n p d g' by simp
qed

text \<open>
  The claim as the specification states it fails: with the \<open>div\<close> committed (its fiber,
  at address \<open>1\<close>, is the child of the current root) and the \<open>span\<close> rendered,
  \<open>reconcileChildren\<close> for the new root changes the \<open>effectTag\<close> of the \<open>div\<close> fiber of
  the current tree.
\<close>

theorem reconcileChildren_writes_current_tree_counterexample:
  "currentRoot spanRendered = Some 0 \<and> child (heap spanRendered 0) = Some 1 \<and>
   effectTag (heap spanRendered 1) = Some PLACEMENT \<and>
   isReturns (reconcileChildren 5 2 [VObj (Host ''span'') [] []] spanRendered) \<and>
   effectTag (heap (stateOf (reconcileChildren 5 2 [VObj (Host ''span'') [] []] spanRendered)) 1)
     = Some DELETION"
  using spanRendered_run by (simp add: Let_def)


section \<open>The invariant of a render pass\<close>

lemma oldOk_own [simp]: "oldOk n0 (f\<lparr>domNode := d, hooks := h\<rparr>) = oldOk n0 f"
  by (simp add: oldOk_def)

lemma newOk_own [simp]: "newOk n0 n (f\<lparr>domNode := d, hooks := h\<rparr>) = newOk n0 n f"
  by (simp add: newOk_def)

lemma oldOk_tag [simp]: "oldOk n0 (f\<lparr>effectTag := t\<rparr>) = oldOk n0 f"
  by (simp add: oldOk_def)

lemma newOk_mono: "newOk n0 n f \<Longrightarrow> n \<le> m \<Longrightarrow> newOk n0 m f"
  unfolding newOk_def by (meson less_le_trans)

lemma inPass_ownWrites:
  assumes "inPass n0 g" and "ownWrites u g g'"
  shows "inPass n0 g'"
proof -
  from assms(2) obtain d h where u: "heap g' u = (heap g u)\<lparr>domNode := d, hooks := h\<rparr>"
    and o: "\<forall>a. a \<noteq> u \<longrightarrow> heap g' a = heap g a"
    and s: "heapSize g' = heapSize g" "deletions g' = deletions g"
    unfolding ownWrites_def by blast
  have 1: "oldOk n0 (heap g' a) = oldOk n0 (heap g a)" for a
    using u o by (cases "a = u") simp_all
  have 2: "newOk n0 n (heap g' a) = newOk n0 n (heap g a)" for a n
    using u o by (cases "a = u") simp_all
  show ?thesis using assms(1) unfolding inPass_def 1 2 s .
qed

lemma inPassD:
  assumes "inPass n0 g"
  shows "n0 < heapSize g" and "\<And>a. a < n0 \<Longrightarrow> oldOk n0 (heap g a)"
    and "\<And>a. n0 \<le> a \<Longrightarrow> a < heapSize g \<Longrightarrow> newOk n0 (heapSize g) (heap g a)"
    and "\<exists>ds. deletions g = Some ds \<and> (\<forall>d\<in>set ds. d < n0)"
  using assms unfolding inPass_def by blast+

lemma inPassI:
  assumes "n0 < heapSize g" and "\<And>a. a < n0 \<Longrightarrow> oldOk n0 (heap g a)"
    and "\<And>a. n0 \<le> a \<Longrightarrow> a < heapSize g \<Longrightarrow> newOk n0 (heapSize g) (heap g a)"
    and "\<exists>ds. deletions g = Some ds \<and> (\<forall>d\<in>set ds. d < n0)"
  shows "inPass n0 g"
  using assms unfolding inPass_def by blast

lemma inPass_alloc:
  assumes "inPass n0 g" and "newOk n0 (Suc (heapSize g)) f"
  shows "inPass n0 (g\<lparr>heap := (heap g)(heapSize g := f), heapSize := Suc (heapSize g)\<rparr>)"
proof (rule inPassI)
  show "n0 < heapSize (g\<lparr>heap := (heap g)(heapSize g := f), heapSize := Suc (heapSize g)\<rparr>)"
    using inPassD(1) [OF assms(1)] by simp
next
  fix a assume "a < n0"
  then show "oldOk n0 (heap (g\<lparr>heap := (heap g)(heapSize g := f), heapSize := Suc (heapSize g)\<rparr>) a)"
    using inPassD(1,2) [OF assms(1)] by simp
next
  fix a
  assume a: "n0 \<le> a"
    "a < heapSize (g\<lparr>heap := (heap g)(heapSize g := f), heapSize := Suc (heapSize g)\<rparr>)"
  show "newOk n0 (heapSize (g\<lparr>heap := (heap g)(heapSize g := f), heapSize := Suc (heapSize g)\<rparr>))
          (heap (g\<lparr>heap := (heap g)(heapSize g := f), heapSize := Suc (heapSize g)\<rparr>) a)"
  proof (cases "a = heapSize g")
    case True
    then show ?thesis using assms(2) by simp
  next
    case False
    with a have "a < heapSize g" by simp
    with a(1) have "newOk n0 (heapSize g) (heap g a)" by (rule inPassD(3) [OF assms(1)])
    then have "newOk n0 (Suc (heapSize g)) (heap g a)" by (rule newOk_mono) simp
    with False show ?thesis by simp
  qed
next
  show "\<exists>ds. deletions (g\<lparr>heap := (heap g)(heapSize g := f), heapSize := Suc (heapSize g)\<rparr>) = Some ds \<and>
             (\<forall>d\<in>set ds. d < n0)"
    using inPassD(4) [OF assms(1)] by simp
qed

lemma inPass_mark:
  assumes "inPass n0 g" and "x < n0" and "deletions g = Some ds"
  shows "inPass n0 (g\<lparr>heap := (heap g)(x := (heap g x)\<lparr>effectTag := Some DELETION\<rparr>),
                      deletions := Some (ds @ [x])\<rparr>)"
proof (rule inPassI)
  show "n0 < heapSize (g\<lparr>heap := (heap g)(x := (heap g x)\<lparr>effectTag := Some DELETION\<rparr>),
                      deletions := Some (ds @ [x])\<rparr>)"
    using inPassD(1) [OF assms(1)] by simp
next
  fix a assume "a < n0"
  then have "oldOk n0 (heap g a)" by (rule inPassD(2) [OF assms(1)])
  moreover have "oldOk n0 (heap g x)" using assms(2) by (rule inPassD(2) [OF assms(1)])
  ultimately show "oldOk n0 (heap (g\<lparr>heap := (heap g)(x := (heap g x)\<lparr>effectTag := Some DELETION\<rparr>),
                      deletions := Some (ds @ [x])\<rparr>) a)"
    by simp
next
  fix a
  assume a: "n0 \<le> a"
    "a < heapSize (g\<lparr>heap := (heap g)(x := (heap g x)\<lparr>effectTag := Some DELETION\<rparr>),
                      deletions := Some (ds @ [x])\<rparr>)"
  then have "newOk n0 (heapSize g) (heap g a)" using inPassD(3) [OF assms(1)] by simp
  moreover have "a \<noteq> x" using a(1) assms(2) by simp
  ultimately show "newOk n0 (heapSize (g\<lparr>heap := (heap g)(x := (heap g x)\<lparr>effectTag := Some DELETION\<rparr>),
                      deletions := Some (ds @ [x])\<rparr>))
          (heap (g\<lparr>heap := (heap g)(x := (heap g x)\<lparr>effectTag := Some DELETION\<rparr>),
                      deletions := Some (ds @ [x])\<rparr>) a)"
    by simp
next
  from inPassD(4) [OF assms(1)] assms(2,3)
  show "\<exists>es. deletions (g\<lparr>heap := (heap g)(x := (heap g x)\<lparr>effectTag := Some DELETION\<rparr>),
                      deletions := Some (ds @ [x])\<rparr>) = Some es \<and> (\<forall>d\<in>set es. d < n0)"
    by auto
qed

text \<open>A write to a link of a fiber of the pass keeps the invariant when the fiber stays well linked.\<close>

lemma inPass_write:
  assumes "inPass n0 g" and "n0 \<le> w" and "w < heapSize g"
    and "newOk n0 (heapSize g) (F (heap g w))"
  shows "inPass n0 (g\<lparr>heap := (heap g)(w := F (heap g w))\<rparr>)"
proof (rule inPassI)
  show "n0 < heapSize (g\<lparr>heap := (heap g)(w := F (heap g w))\<rparr>)"
    using inPassD(1) [OF assms(1)] by simp
next
  fix a assume "a < n0"
  then show "oldOk n0 (heap (g\<lparr>heap := (heap g)(w := F (heap g w))\<rparr>) a)"
    using inPassD(2) [OF assms(1)] assms(2) by simp
next
  fix a
  assume a: "n0 \<le> a" "a < heapSize (g\<lparr>heap := (heap g)(w := F (heap g w))\<rparr>)"
  then have "newOk n0 (heapSize g) (heap g a)" using inPassD(3) [OF assms(1)] by simp
  then show "newOk n0 (heapSize (g\<lparr>heap := (heap g)(w := F (heap g w))\<rparr>))
               (heap (g\<lparr>heap := (heap g)(w := F (heap g w))\<rparr>) a)"
    using assms(4) by simp
next
  show "\<exists>ds. deletions (g\<lparr>heap := (heap g)(w := F (heap g w))\<rparr>) = Some ds \<and> (\<forall>d\<in>set ds. d < n0)"
    using inPassD(4) [OF assms(1)] by simp
qed

lemma inPass_child:
  assumes "inPass n0 g" and "n0 \<le> w" and "w < heapSize g"
    and "\<forall>c. nf = Some c \<longrightarrow> n0 < c \<and> c < heapSize g"
  shows "inPass n0 (g\<lparr>heap := (heap g)(w := (heap g w)\<lparr>child := nf\<rparr>)\<rparr>)"
proof -
  have "newOk n0 (heapSize g) (heap g w)" using assms(2,3) by (rule inPassD(3) [OF assms(1)])
  then have "newOk n0 (heapSize g) ((heap g w)\<lparr>child := nf\<rparr>)"
    using assms(4) by (simp add: newOk_def)
  with assms(1,2,3) show ?thesis by (rule inPass_write)
qed

lemma inPass_sibling:
  assumes "inPass n0 g" and "n0 \<le> p" and "p < heapSize g"
    and "\<forall>c. nf = Some c \<longrightarrow> n0 < c \<and> c < heapSize g"
  shows "inPass n0 (g\<lparr>heap := (heap g)(p := (heap g p)\<lparr>sibling := nf\<rparr>)\<rparr>)"
proof -
  have "newOk n0 (heapSize g) (heap g p)" using assms(2,3) by (rule inPassD(3) [OF assms(1)])
  then have "newOk n0 (heapSize g) ((heap g p)\<lparr>sibling := nf\<rparr>)"
    using assms(4) by (simp add: newOk_def)
  with assms(1,2,3) show ?thesis by (rule inPass_write)
qed

lemma inPass_old_sibling:
  "inPass n0 g \<Longrightarrow> x < n0 \<Longrightarrow> sibling (heap g x) = Some s \<Longrightarrow> s < n0"
  unfolding inPass_def oldOk_def by blast

lemma inPass_old_child:
  "inPass n0 g \<Longrightarrow> x < n0 \<Longrightarrow> child (heap g x) = Some s \<Longrightarrow> s < n0"
  unfolding inPass_def oldOk_def by blast

lemma newFiberFor_inPass:
  assumes n: "newFiberFor w old e g = (nf, g1)"
    and i: "inPass n0 g" and w: "n0 \<le> w" "w < heapSize g"
    and o: "\<forall>x. old = Some x \<longrightarrow> x < n0"
  shows "inPass n0 g1 \<and> heapSize g \<le> heapSize g1 \<and>
         (\<forall>c. nf = Some c \<longrightarrow> n0 < c \<and> c < heapSize g1)"
proof -
  from newFiberFor_cases [OF n]
  consider "nf = None" "g1 = g"
    | f where "nf = Some (heapSize g)"
        "g1 = g\<lparr>heap := (heap g)(heapSize g := f), heapSize := Suc (heapSize g)\<rparr>"
        "parent f = Some w" "child f = None" "sibling f = None"
        "effectTag f = Some UPDATE \<and> alternate f = old \<and> old \<noteq> None \<or>
         effectTag f = Some PLACEMENT \<and> alternate f = None"
    by blast
  then show ?thesis
  proof cases
    case 1
    with i show ?thesis by simp
  next
    case 2
    have "newOk n0 (Suc (heapSize g)) f"
      using 2(3-6) w o unfolding newOk_def by auto
    with i have "inPass n0 g1" unfolding 2(2) by (rule inPass_alloc)
    moreover have "n0 < heapSize g" using i by (simp add: inPass_def)
    ultimately show ?thesis using 2(1,2) by simp
  qed
qed

lemma markDeletion_inPass:
  assumes m: "markDeletion old e g = Returns g2"
    and i: "inPass n0 g" and o: "\<forall>x. old = Some x \<longrightarrow> x < n0"
  shows "inPass n0 g2 \<and> heapSize g2 = heapSize g"
proof -
  from markDeletion_cases [OF m]
  consider "g2 = g"
    | x ds where "old = Some x" "deletions g = Some ds"
        "g2 = g\<lparr>heap := (heap g)(x := (heap g x)\<lparr>effectTag := Some DELETION\<rparr>),
               deletions := Some (ds @ [x])\<rparr>"
    by blast
  then show ?thesis
  proof cases
    case 1
    with i show ?thesis by simp
  next
    case 2
    have "x < n0" using 2(1) o by simp
    with i 2(2) have "inPass n0 g2" unfolding 2(3) by (simp add: inPass_mark)
    then show ?thesis by (simp add: 2(3))
  qed
qed

lemma linkFiber_inPass:
  assumes l: "linkFiber w i e prev nf g = Returns g3"
    and i: "inPass n0 g" and w: "n0 \<le> w" "w < heapSize g"
    and p: "\<forall>p. prev = Some p \<longrightarrow> n0 \<le> p \<and> p < heapSize g"
    and nf: "\<forall>c. nf = Some c \<longrightarrow> n0 < c \<and> c < heapSize g"
  shows "inPass n0 g3 \<and> heapSize g3 = heapSize g"
proof -
  from linkFiber_cases [OF l]
  consider "g3 = g"
    | "g3 = g\<lparr>heap := (heap g)(w := (heap g w)\<lparr>child := nf\<rparr>)\<rparr>"
    | q where "prev = Some q" "g3 = g\<lparr>heap := (heap g)(q := (heap g q)\<lparr>sibling := nf\<rparr>)\<rparr>"
    by blast
  then show ?thesis
  proof cases
    case 1
    with i show ?thesis by simp
  next
    case 2
    have "inPass n0 g3" unfolding 2 using i w nf by (rule inPass_child)
    then show ?thesis by (simp add: 2)
  next
    case 3
    have "n0 \<le> q" "q < heapSize g" using 3(1) p by auto
    with i have "inPass n0 g3" unfolding 3(2) using nf by (rule inPass_sibling)
    then show ?thesis by (simp add: 3(2))
  qed
qed

lemma reconcileLoop_inPass:
  assumes "reconcileLoop fuel w els i old prev g = Returns g'"
    and "inPass n0 g" and "n0 \<le> w" and "w < heapSize g"
    and "\<forall>x. old = Some x \<longrightarrow> x < n0"
    and "\<forall>p. prev = Some p \<longrightarrow> n0 \<le> p \<and> p < heapSize g"
  shows "inPass n0 g' \<and> heapSize g \<le> heapSize g'"
  using assms
proof (induction fuel arbitrary: i old prev g)
  case 0
  then have "g' = g" by (simp split: if_splits)
  with "0.prems" show ?case by simp
next
  case (Suc fuel)
  show ?case
  proof (cases "i < length els \<or> old \<noteq> None")
    case False
    with Suc.prems(1) have "g' = g" by simp
    with Suc.prems show ?thesis by simp
  next
    case True
    from Suc.prems(1) True obtain e nf g1 g2 g3 where
      n: "newFiberFor w old e g = (nf, g1)" and m: "markDeletion old e g1 = Returns g2" and
      l: "linkFiber w i e prev nf g2 = Returns g3" and
      r: "reconcileLoop fuel w els (Suc i)
            (case old of None \<Rightarrow> None | Some x \<Rightarrow> sibling (heap g2 x)) nf g3 = Returns g'"
      by (rule reconcileLoop_step)
    have 1: "inPass n0 g1" "heapSize g \<le> heapSize g1"
      "\<forall>c. nf = Some c \<longrightarrow> n0 < c \<and> c < heapSize g1"
      using newFiberFor_inPass [OF n Suc.prems(2,3,4,5)] by simp_all
    have 2: "inPass n0 g2" "heapSize g2 = heapSize g1"
      using markDeletion_inPass [OF m 1(1) Suc.prems(5)] by simp_all
    have w2: "w < heapSize g2" using Suc.prems(4) 1 2 by simp
    have nf2: "\<forall>c. nf = Some c \<longrightarrow> n0 < c \<and> c < heapSize g2" using 1 2 by simp
    have p2: "\<forall>p. prev = Some p \<longrightarrow> n0 \<le> p \<and> p < heapSize g2"
      using Suc.prems(6) 1 2 by auto
    have 3: "inPass n0 g3" "heapSize g3 = heapSize g2"
      using linkFiber_inPass [OF l 2(1) Suc.prems(3) w2 p2 nf2] by simp_all
    have o: "\<forall>x. (case old of None \<Rightarrow> None | Some x \<Rightarrow> sibling (heap g2 x)) = Some x \<longrightarrow> x < n0"
      using Suc.prems(5) 2(1) by (auto split: option.splits dest: inPass_old_sibling)
    have w3: "w < heapSize g3" using w2 3 by simp
    have nf3: "\<forall>p. nf = Some p \<longrightarrow> n0 \<le> p \<and> p < heapSize g3" using nf2 3 by auto
    have "inPass n0 g' \<and> heapSize g3 \<le> heapSize g'"
      using Suc.IH [OF r 3(1) Suc.prems(3) w3 o nf3] .
    then show ?thesis using 1 2 3 by simp
  qed
qed

lemma inPass_nextUnit [simp]: "inPass n0 (g\<lparr>nextUnitOfWork := n\<rparr>) = inPass n0 g"
  by (simp add: inPass_def)

lemma inPass_trace [simp]: "inPass n0 (g\<lparr>trace := t\<rparr>) = inPass n0 g"
  by (simp add: inPass_def)

lemma inPass_parentNode [simp]: "inPass n0 (g\<lparr>parentNode := p\<rparr>) = inPass n0 g"
  by (simp add: inPass_def)

lemma nextSibling_range:
  assumes "inPass n0 g"
  shows "n0 \<le> f \<Longrightarrow> f < heapSize g \<Longrightarrow>
         nextSibling fuel (heap g) (Some f) = Returns (Some s) \<Longrightarrow> n0 < s \<and> s < heapSize g"
proof (induction fuel arbitrary: f)
  case 0
  then show ?case by simp
next
  case (Suc fuel)
  have ok: "newOk n0 (heapSize g) (heap g f)"
    using Suc.prems(1,2) by (rule inPassD(3) [OF assms])
  show ?case
  proof (cases "sibling (heap g f)")
    case (Some x)
    with Suc.prems(3) have "s = x" by simp
    with Some ok show ?thesis by (simp add: newOk_def)
  next
    case None
    with Suc.prems(3) have r: "nextSibling fuel (heap g) (parent (heap g f)) = Returns (Some s)"
      by simp
    then obtain p where p: "parent (heap g f) = Some p" by (cases "parent (heap g f)") auto
    with ok have "n0 \<le> p" "p < heapSize g" by (simp_all add: newOk_def)
    then show ?thesis using Suc.IH r p by simp
  qed
qed

lemma performUnitOfWork_passInv:
  assumes inv: "passInv n0 g" and u: "nextUnitOfWork g = Some u"
    and run: "performUnitOfWork C fuel u g = Returns (n, g')"
  shows "passInv n0 (g'\<lparr>nextUnitOfWork := n\<rparr>)"
proof -
  from inv have i: "inPass n0 g" and wr: "wipRoot g = Some n0"
    and cr: "\<forall>r. currentRoot g = Some r \<longrightarrow> r < n0"
    unfolding passInv_def by simp_all
  from inv u have ur: "n0 \<le> u" "u < heapSize g" unfolding passInv_def by simp_all
  from run obtain g1 els where
    o: "ownWrites u g g1" and r: "reconcileChildren fuel u els g1 = Returns g'" and
    nx: "n = child (heap g' u) \<and> n \<noteq> None \<or>
         child (heap g' u) = None \<and> nextSibling fuel (heap g') (Some u) = Returns n"
    by (rule performUnitOfWork_split)
  have i1: "inPass n0 g1" using i o by (rule inPass_ownWrites)
  have s1: "heapSize g1 = heapSize g" "wipRoot g1 = wipRoot g" "currentRoot g1 = currentRoot g"
    using o unfolding ownWrites_def by simp_all
  have l: "reconcileLoop fuel u els 0
             (case alternate (heap g1 u) of None \<Rightarrow> None | Some x \<Rightarrow> child (heap g1 x))
             None g1 = Returns g'"
    using r by (simp add: reconcileChildren_def)
  have ok1: "newOk n0 (heapSize g1) (heap g1 u)"
    using ur s1 by (intro inPassD(3) [OF i1]) simp_all
  have old: "\<forall>x. (case alternate (heap g1 u) of None \<Rightarrow> None | Some x \<Rightarrow> child (heap g1 x))
                 = Some x \<longrightarrow> x < n0"
  proof (intro allI impI)
    fix x
    assume x: "(case alternate (heap g1 u) of None \<Rightarrow> None | Some x \<Rightarrow> child (heap g1 x)) = Some x"
    then obtain a where a: "alternate (heap g1 u) = Some a" "child (heap g1 a) = Some x"
      by (auto split: option.splits)
    from a(1) ok1 have "a < n0" by (simp add: newOk_def)
    then show "x < n0" using a(2) by (rule inPass_old_child [OF i1])
  qed
  have "inPass n0 g' \<and> heapSize g1 \<le> heapSize g'"
    using reconcileLoop_inPass [OF l i1 ur(1) _ old] ur(2) s1 by simp
  then have i': "inPass n0 g'" and sz: "heapSize g \<le> heapSize g'" using s1 by simp_all
  have e: "g' = g1\<lparr>heap := heap g', heapSize := heapSize g', deletions := deletions g'\<rparr>"
    using l by (rule reconcileLoop_globals)
  have "wipRoot g' = wipRoot g1" "currentRoot g' = currentRoot g1" by (subst e, simp)+
  then have w': "wipRoot g' = Some n0" and c': "\<forall>r. currentRoot g' = Some r \<longrightarrow> r < n0"
    using s1 wr cr by simp_all
  have ok': "newOk n0 (heapSize g') (heap g' u)"
    using ur sz by (intro inPassD(3) [OF i']) simp_all
  have "\<forall>x. n = Some x \<longrightarrow> n0 \<le> x \<and> x < heapSize g'"
  proof (intro allI impI)
    fix x assume x: "n = Some x"
    from nx show "n0 \<le> x \<and> x < heapSize g'"
    proof
      assume "n = child (heap g' u) \<and> n \<noteq> None"
      with x ok' show ?thesis by (simp add: newOk_def)
    next
      assume "child (heap g' u) = None \<and> nextSibling fuel (heap g') (Some u) = Returns n"
      with x have "nextSibling fuel (heap g') (Some u) = Returns (Some x)" by simp
      from nextSibling_range [OF i' ur(1) _ this] ur(2) sz show ?thesis by simp
    qed
  qed
  then show ?thesis using i' w' c' unfolding passInv_def by simp
qed

lemma workUnits_passInv:
  "passInv n0 g \<Longrightarrow> workUnits C k fuel deadline i shouldYield g = Returns g' \<Longrightarrow> passInv n0 g'"
proof (induction fuel arbitrary: i shouldYield g)
  case 0
  then have "g' = g" by (simp split: if_splits)
  with 0 show ?case by simp
next
  case (Suc fuel)
  show ?case
  proof (cases "nextUnitOfWork g")
    case None
    with Suc.prems show ?thesis by simp
  next
    case (Some u)
    show ?thesis
    proof (cases shouldYield)
      case True
      with Some Suc.prems show ?thesis by simp
    next
      case False
      with Some Suc.prems(2) obtain n g1 where
        p: "performUnitOfWork C k u g = Returns (n, g1)" and
        r: "workUnits C k fuel deadline (Suc i) (deadline i < 1) (g1\<lparr>nextUnitOfWork := n\<rparr>)
              = Returns g'"
        by (auto split: outcome.splits)
      have "passInv n0 (g1\<lparr>nextUnitOfWork := n\<rparr>)"
        using Suc.prems(1) Some p by (rule performUnitOfWork_passInv)
      then show ?thesis using r by (rule Suc.IH)
    qed
  qed
qed

lemma init_closed: "closedHeap (init n)"
  by (simp add: closedHeap_def init_def)

lemma passInv_closed:
  assumes "passInv n0 g"
  shows "closedHeap g"
proof -
  from assms have i: "inPass n0 g" and c: "\<forall>r. currentRoot g = Some r \<longrightarrow> r < n0"
    unfolding passInv_def by simp_all
  have n: "n0 < heapSize g" using i by (rule inPassD(1))
  have "oldOk (heapSize g) (heap g a)" if "a < heapSize g" for a
  proof (cases "a < n0")
    case True
    then have "oldOk n0 (heap g a)" by (rule inPassD(2) [OF i])
    then show ?thesis using n unfolding oldOk_def by (meson less_trans)
  next
    case False
    then have "newOk n0 (heapSize g) (heap g a)" using that by (intro inPassD(3) [OF i]) simp_all
    then show ?thesis unfolding oldOk_def newOk_def by blast
  qed
  moreover have "\<forall>r. currentRoot g = Some r \<longrightarrow> r < heapSize g"
    using c n by (meson less_trans)
  ultimately show ?thesis unfolding closedHeap_def by blast
qed

lemma newRoot_passInv:
  assumes c: "closedHeap g"
    and f: "child f = None" "sibling f = None" "parent f = None" "alternate f = currentRoot g"
      "effectTag f = None"
  shows "passInv (heapSize g)
           (g\<lparr>heap := (heap g)(heapSize g := f), heapSize := Suc (heapSize g),
              wipRoot := Some (heapSize g), nextUnitOfWork := Some (heapSize g),
              deletions := Some []\<rparr>)"
proof -
  have "newOk (heapSize g) (Suc (heapSize g)) f"
    using f c unfolding newOk_def closedHeap_def by simp
  then have "inPass (heapSize g)
           (g\<lparr>heap := (heap g)(heapSize g := f), heapSize := Suc (heapSize g),
              wipRoot := Some (heapSize g), nextUnitOfWork := Some (heapSize g),
              deletions := Some []\<rparr>)"
    using c unfolding inPass_def closedHeap_def by (simp add: less_Suc_eq_le)
  then show ?thesis using c unfolding passInv_def closedHeap_def by simp
qed

lemma render_passInv:
  assumes "closedHeap g"
  shows "passInv (heapSize g) (render e c g)"
proof -
  have "render e c g =
          g\<lparr>heap := (heap g)(heapSize g := blank\<lparr>domNode := c, props := Some ([], [e]),
                                                   alternate := currentRoot g\<rparr>),
            heapSize := Suc (heapSize g),
            wipRoot := Some (heapSize g), nextUnitOfWork := Some (heapSize g),
            deletions := Some []\<rparr>"
    by (simp add: render_def alloc_def Let_def)
  then show ?thesis using newRoot_passInv [OF assms, of "blank\<lparr>domNode := c, props := Some ([], [e]),
                                                   alternate := currentRoot g\<rparr>"]
    by (simp add: blank_def)
qed

lemma closedHeap_cells [simp]: "closedHeap (g\<lparr>cells := c\<rparr>) = closedHeap g"
  by (simp add: closedHeap_def)

lemma setState_passInv:
  assumes c: "closedHeap g" and s: "setState h action g = Returns g'"
  shows "passInv (heapSize g) g'"
proof -
  define g0 where "g0 = g\<lparr>cells := (cells g)(h := (cells g h)\<lparr>queue := queue (cells g h) @ [action]\<rparr>)\<rparr>"
  have c0: "closedHeap g0" using c by (simp add: g0_def)
  have z: "heapSize g0 = heapSize g" by (simp add: g0_def)
  from s obtain r where r: "currentRoot g0 = Some r"
    and g': "g' = g0\<lparr>heap := (heap g0)(heapSize g0 := blank\<lparr>domNode := domNode (heap g0 r),
                                                props := props (heap g0 r), alternate := Some r\<rparr>),
            heapSize := Suc (heapSize g0),
            wipRoot := Some (heapSize g0), nextUnitOfWork := Some (heapSize g0),
            deletions := Some []\<rparr>"
    unfolding setState_def alloc_def Let_def g0_def [symmetric]
    by (auto split: option.splits)
  show ?thesis
    unfolding g' z [symmetric]
    using newRoot_passInv [OF c0, of "blank\<lparr>domNode := domNode (heap g0 r),
                                                props := props (heap g0 r), alternate := Some r\<rparr>"] r
    by (simp add: blank_def)
qed

lemma commitRoot_closed:
  assumes "passInv n0 g" and "commitRoot fuel g = Returns g'"
  shows "closedHeap g'"
proof -
  from assms(2) obtain ds g1 r g2 where
    a: "commitEach fuel ds g = Returns g1" and
    b: "commitWork fuel (child (heap g1 r)) g1 = Returns g2" and
    g': "g' = g2\<lparr>currentRoot := wipRoot g2, wipRoot := None\<rparr>"
    by (auto simp: commitRoot_def split: option.splits outcome.splits)
  have 1: "g1 = g\<lparr>parentNode := parentNode g1, trace := trace g1\<rparr>" using a by (rule commitEach_frame)
  have 2: "g2 = g1\<lparr>parentNode := parentNode g2, trace := trace g2\<rparr>" using b by (rule commitWork_frame)
  have h: "heap g2 = heap g" "heapSize g2 = heapSize g" "wipRoot g2 = wipRoot g"
    by (subst 2, subst 1, simp)+
  from assms(1) have i: "inPass n0 g" and w: "wipRoot g = Some n0" unfolding passInv_def by simp_all
  have c: "closedHeap g" using assms(1) by (rule passInv_closed)
  have "n0 < heapSize g" using i by (rule inPassD(1))
  then show ?thesis using c h w unfolding closedHeap_def g' by simp
qed

section \<open>The order of the commit\<close>

lemma commitDeletion_old:
  assumes "inPass n0 g"
  shows "\<forall>f. fo = Some f \<longrightarrow> f < n0 \<Longrightarrow> commitDeletion fuel fo dp g = Returns g' \<Longrightarrow>
         \<exists>l. trace g' = trace g @ l \<and> (\<forall>e\<in>set l. fst e < n0)"
proof (induction fuel arbitrary: fo)
  case 0
  then show ?case
    by (cases fo) (auto simp: removeChild_def split: option.splits if_splits)
next
  case (Suc fuel)
  from Suc.prems(2) obtain f where f: "fo = Some f" by (cases fo) auto
  with Suc.prems(1) have lt: "f < n0" by simp
  show ?case
  proof (cases "domNode (heap g f)")
    case (Some d)
    with f Suc.prems(2) have "trace g' = trace g @ [(f, RemoveChild dp d)]"
      by (auto simp: removeChild_def split: if_splits)
    with lt show ?thesis by simp
  next
    case None
    with f Suc.prems(2) have r: "commitDeletion fuel (child (heap g f)) dp g = Returns g'" by simp
    have "\<forall>c. child (heap g f) = Some c \<longrightarrow> c < n0"
      using inPass_old_child [OF assms lt] by blast
    then show ?thesis using r by (rule Suc.IH)
  qed
qed

lemma commitEffect_cases:
  assumes "commitEffect fuel f dp g = Returns g'"
  shows "(\<exists>op. \<not> isRemoval op \<and> trace g' = trace g @ [(f, op)]) \<or>
         (effectTag (heap g f) = Some DELETION \<and>
          commitDeletion fuel (Some f) dp g = Returns g') \<or>
         g' = g"
proof (cases "effectTag (heap g f) = Some PLACEMENT \<and> domNode (heap g f) \<noteq> None")
  case True
  then obtain d where d: "domNode (heap g f) = Some d" by auto
  have c1: "(effectTag (heap g f) = Some PLACEMENT \<and> domNode (heap g f) \<noteq> None) = True"
    using True by simp
  have "(case domNode (heap g f) of
           Some d \<Rightarrow> Returns (appendChild f dp d g)
         | None \<Rightarrow> Returns g) = Returns g'"
    using assms unfolding commitEffect_def Let_def c1 if_True .
  with d have "trace g' = trace g @ [(f, AppendChild dp d)]" by (auto simp: appendChild_def)
  moreover have "\<not> isRemoval (AppendChild dp d)" by simp
  ultimately show ?thesis by blast
next
  case notPlacement: False
  show ?thesis
  proof (cases "effectTag (heap g f) = Some UPDATE \<and> domNode (heap g f) \<noteq> None")
    case True
    then obtain d where d: "domNode (heap g f) = Some d" by auto
    have c1: "(effectTag (heap g f) = Some PLACEMENT \<and> domNode (heap g f) \<noteq> None) = False"
      using notPlacement by simp
    have c2: "(effectTag (heap g f) = Some UPDATE \<and> domNode (heap g f) \<noteq> None) = True"
      using True by simp
    have "(case (domNode (heap g f), alternate (heap g f)) of
                 (Some d, Some a) \<Rightarrow>
                   (case (props (heap g a), props (heap g f)) of
                      (Some prev, Some nxt) \<Rightarrow>
                        Returns (g\<lparr>trace := trace g @ [(f, UpdateDom d prev nxt)]\<rparr>)
                    | _ \<Rightarrow> Throws TypeError)
               | _ \<Rightarrow> Throws TypeError) = Returns g'"
      using assms unfolding commitEffect_def Let_def c1 c2 if_False if_True .
    with d
    have u: "(case alternate (heap g f) of
                None \<Rightarrow> Throws TypeError
              | Some a \<Rightarrow>
                  (case (props (heap g a), props (heap g f)) of
                     (Some prev, Some nxt) \<Rightarrow>
                       Returns (g\<lparr>trace := trace g @ [(f, UpdateDom d prev nxt)]\<rparr>)
                   | _ \<Rightarrow> Throws TypeError)) = Returns g'"
      by (simp split: option.splits)
    then obtain a where a: "alternate (heap g f) = Some a"
      by (cases "alternate (heap g f)") simp_all
    from u a obtain prev where p: "props (heap g a) = Some prev"
      by (cases "props (heap g a)") simp_all
    from u a p obtain nxt where n: "props (heap g f) = Some nxt"
      by (cases "props (heap g f)") simp_all
    from u a p n have "g' = g\<lparr>trace := trace g @ [(f, UpdateDom d prev nxt)]\<rparr>" by simp
    then have "trace g' = trace g @ [(f, UpdateDom d prev nxt)]" by simp
    moreover have "\<not> isRemoval (UpdateDom d prev nxt)" by simp
    ultimately show ?thesis by blast
  next
    case notUpdate: False
    have c1: "(effectTag (heap g f) = Some PLACEMENT \<and> domNode (heap g f) \<noteq> None) = False"
      using notPlacement by simp
    have c2: "(effectTag (heap g f) = Some UPDATE \<and> domNode (heap g f) \<noteq> None) = False"
      using notUpdate by simp
    have e: "(if effectTag (heap g f) = Some DELETION
              then commitDeletion fuel (Some f) dp g else Returns g) = Returns g'"
      using assms unfolding commitEffect_def Let_def c1 c2 if_False .
    show ?thesis
    proof (cases "effectTag (heap g f) = Some DELETION")
      case True
      with e have "commitDeletion fuel (Some f) dp g = Returns g'"
        by (simp del: commitDeletion.simps)
      with True show ?thesis by blast
    next
      case False
      with e have "g' = g" by simp
      then show ?thesis by blast
    qed
  qed
qed

lemma commitEffect_old:
  assumes "inPass n0 g" and "f < n0" and "commitEffect fuel f dp g = Returns g'"
  shows "\<exists>l. trace g' = trace g @ l \<and> (\<forall>e\<in>set l. fst e < n0)"
proof -
  from commitEffect_cases [OF assms(3)] consider
      op where "trace g' = trace g @ [(f, op)]"
    | "commitDeletion fuel (Some f) dp g = Returns g'"
    | "g' = g"
    by blast
  then show ?thesis
  proof cases
    case 1
    then show ?thesis using assms(2) by simp
  next
    case 2
    have "\<forall>x. Some f = Some x \<longrightarrow> x < n0" using assms(2) by simp
    then show ?thesis using 2 by (rule commitDeletion_old [OF assms(1)])
  next
    case 3
    then show ?thesis by simp
  qed
qed

lemma commitEffect_new:
  assumes "inPass n0 g" and "n0 < f" and "f < heapSize g"
    and "commitEffect fuel f dp g = Returns g'"
  shows "\<exists>l. trace g' = trace g @ l \<and> (\<forall>e\<in>set l. n0 < fst e \<and> \<not> isRemoval (snd e))"
proof -
  have "newOk n0 (heapSize g) (heap g f)"
    using assms(2,3) by (intro inPassD(3) [OF assms(1)]) simp_all
  then have "effectTag (heap g f) \<noteq> Some DELETION" by (simp add: newOk_def)
  with commitEffect_cases [OF assms(4)] consider
      op where "\<not> isRemoval op" "trace g' = trace g @ [(f, op)]"
    | "g' = g"
    by blast
  then show ?thesis
  proof cases
    case 1
    then show ?thesis using assms(2) by simp
  next
    case 2
    then show ?thesis by simp
  qed
qed

lemma commitWork_old:
  "inPass n0 g \<Longrightarrow> \<forall>f. fo = Some f \<longrightarrow> f < n0 \<Longrightarrow> commitWork fuel fo g = Returns g' \<Longrightarrow>
   \<exists>l. trace g' = trace g @ l \<and> (\<forall>e\<in>set l. fst e < n0)"
proof (induction fuel fo g arbitrary: g' rule: commitWork.induct)
  case (1 fuel g)
  then show ?case by simp
next
  case (2 f g)
  then show ?case by simp
next
  case (3 fuel f g)
  from "3.prems"(3) obtain dp g1 g2 where
    dp: "domParentOf fuel (heap g) (parent (heap g f)) = Returns dp" and
    e: "commitEffect fuel f dp g = Returns g1" and
    c: "commitWork fuel (child (heap g1 f)) g1 = Returns g2" and
    s: "commitWork fuel (sibling (heap g2 f)) g2 = Returns g'"
    by (auto split: outcome.splits)
  have lt: "f < n0" using "3.prems"(2) by simp
  have 1: "g1 = g\<lparr>parentNode := parentNode g1, trace := trace g1\<rparr>" using e by (rule commitEffect_frame)
  have 2: "g2 = g1\<lparr>parentNode := parentNode g2, trace := trace g2\<rparr>" using c by (rule commitWork_frame)
  have h1: "heap g1 = heap g" by (subst 1) simp
  have h2: "heap g2 = heap g" by (subst 2, subst 1) simp
  have i1: "inPass n0 g1" using "3.prems"(1) by (subst 1) simp
  have i2: "inPass n0 g2" using i1 by (subst 2) simp
  from commitEffect_old [OF "3.prems"(1) lt e]
  obtain l1 where l1: "trace g1 = trace g @ l1" "\<forall>e\<in>set l1. fst e < n0" by blast
  have "\<forall>x. child (heap g1 f) = Some x \<longrightarrow> x < n0"
    using inPass_old_child [OF "3.prems"(1) lt] h1 by simp
  from "3.IH"(1) [OF dp e i1 this c]
  obtain l2 where l2: "trace g2 = trace g1 @ l2" "\<forall>e\<in>set l2. fst e < n0" by blast
  have "\<forall>x. sibling (heap g2 f) = Some x \<longrightarrow> x < n0"
    using inPass_old_sibling [OF "3.prems"(1) lt] h2 by simp
  from "3.IH"(2) [OF dp e c i2 this s]
  obtain l3 where l3: "trace g' = trace g2 @ l3" "\<forall>e\<in>set l3. fst e < n0" by blast
  have "trace g' = trace g @ (l1 @ l2 @ l3)" using l1 l2 l3 by simp
  moreover have "\<forall>e\<in>set (l1 @ l2 @ l3). fst e < n0" using l1 l2 l3 by auto
  ultimately show ?case by blast
qed

lemma commitWork_new:
  "inPass n0 g \<Longrightarrow> \<forall>f. fo = Some f \<longrightarrow> n0 < f \<and> f < heapSize g \<Longrightarrow>
   commitWork fuel fo g = Returns g' \<Longrightarrow>
   \<exists>l. trace g' = trace g @ l \<and> (\<forall>e\<in>set l. n0 < fst e \<and> \<not> isRemoval (snd e))"
proof (induction fuel fo g arbitrary: g' rule: commitWork.induct)
  case (1 fuel g)
  then show ?case by simp
next
  case (2 f g)
  then show ?case by simp
next
  case (3 fuel f g)
  from "3.prems"(3) obtain dp g1 g2 where
    dp: "domParentOf fuel (heap g) (parent (heap g f)) = Returns dp" and
    e: "commitEffect fuel f dp g = Returns g1" and
    c: "commitWork fuel (child (heap g1 f)) g1 = Returns g2" and
    s: "commitWork fuel (sibling (heap g2 f)) g2 = Returns g'"
    by (auto split: outcome.splits)
  have r: "n0 < f" "f < heapSize g" using "3.prems"(2) by simp_all
  have 1: "g1 = g\<lparr>parentNode := parentNode g1, trace := trace g1\<rparr>" using e by (rule commitEffect_frame)
  have 2: "g2 = g1\<lparr>parentNode := parentNode g2, trace := trace g2\<rparr>" using c by (rule commitWork_frame)
  have h1: "heap g1 = heap g" "heapSize g1 = heapSize g" by (subst 1, simp)+
  have h2: "heap g2 = heap g" "heapSize g2 = heapSize g" by (subst 2, subst 1, simp)+
  have i1: "inPass n0 g1" using "3.prems"(1) by (subst 1) simp
  have i2: "inPass n0 g2" using i1 by (subst 2) simp
  have ok: "newOk n0 (heapSize g) (heap g f)"
    using r by (intro inPassD(3) [OF "3.prems"(1)]) simp_all
  from commitEffect_new [OF "3.prems"(1) r e]
  obtain l1 where l1: "trace g1 = trace g @ l1"
    "\<forall>e\<in>set l1. n0 < fst e \<and> \<not> isRemoval (snd e)" by blast
  have "\<forall>x. child (heap g1 f) = Some x \<longrightarrow> n0 < x \<and> x < heapSize g1"
    using ok h1 by (simp add: newOk_def)
  from "3.IH"(1) [OF dp e i1 this c]
  obtain l2 where l2: "trace g2 = trace g1 @ l2"
    "\<forall>e\<in>set l2. n0 < fst e \<and> \<not> isRemoval (snd e)" by blast
  have "\<forall>x. sibling (heap g2 f) = Some x \<longrightarrow> n0 < x \<and> x < heapSize g2"
    using ok h2 by (simp add: newOk_def)
  from "3.IH"(2) [OF dp e c i2 this s]
  obtain l3 where l3: "trace g' = trace g2 @ l3"
    "\<forall>e\<in>set l3. n0 < fst e \<and> \<not> isRemoval (snd e)" by blast
  have "trace g' = trace g @ (l1 @ l2 @ l3)" using l1 l2 l3 by simp
  moreover have "\<forall>e\<in>set (l1 @ l2 @ l3). n0 < fst e \<and> \<not> isRemoval (snd e)"
    using l1 l2 l3 by auto
  ultimately show ?case by blast
qed

lemma commitEach_old:
  "inPass n0 g \<Longrightarrow> \<forall>d\<in>set ds. d < n0 \<Longrightarrow> commitEach fuel ds g = Returns g' \<Longrightarrow>
   \<exists>l. trace g' = trace g @ l \<and> (\<forall>e\<in>set l. fst e < n0)"
proof (induction ds arbitrary: g)
  case Nil
  then show ?case by simp
next
  case (Cons d ds)
  from Cons.prems(3) obtain g1 where a: "commitWork fuel (Some d) g = Returns g1"
    and b: "commitEach fuel ds g1 = Returns g'"
    by (auto split: outcome.splits)
  have 1: "g1 = g\<lparr>parentNode := parentNode g1, trace := trace g1\<rparr>" using a by (rule commitWork_frame)
  have i1: "inPass n0 g1" using Cons.prems(1) by (subst 1) simp
  have "\<forall>f. Some d = Some f \<longrightarrow> f < n0" using Cons.prems(2) by simp
  from commitWork_old [OF Cons.prems(1) this a]
  obtain l1 where l1: "trace g1 = trace g @ l1" "\<forall>e\<in>set l1. fst e < n0" by blast
  have "\<forall>d\<in>set ds. d < n0" using Cons.prems(2) by simp
  from Cons.IH [OF i1 this b]
  obtain l2 where l2: "trace g' = trace g1 @ l2" "\<forall>e\<in>set l2. fst e < n0" by blast
  have "trace g' = trace g @ (l1 @ l2)" using l1 l2 by simp
  moreover have "\<forall>e\<in>set (l1 @ l2). fst e < n0" using l1 l2 by auto
  ultimately show ?case by blast
qed

text \<open>
  Whenever a commit returns, its backend calls come in two phases: first those made by
  \<open>deletions.forEach(commitWork)\<close>, all of them for fibers of earlier trees, then those
  made for the fibers of the new tree, none of which is a removal. (The fibers of the
  new tree are those allocated after the root \<open>n0\<close> of the pass.) The first phase is not
  made of removals only: see the next section.
\<close>

lemma commitRoot_phases:
  assumes "passInv n0 g" and "commitRoot fuel g = Returns g'"
  shows "\<exists>ds g1 l1 l2.
           deletions g = Some ds \<and> commitEach fuel ds g = Returns g1 \<and>
           trace g1 = trace g @ l1 \<and> trace g' = trace g @ l1 @ l2 \<and>
           (\<forall>e\<in>set l1. fst e < n0) \<and>
           (\<forall>e\<in>set l2. n0 < fst e \<and> \<not> isRemoval (snd e))"
proof -
  from assms(1) have i: "inPass n0 g" and w: "wipRoot g = Some n0"
    unfolding passInv_def by simp_all
  from assms(2) obtain ds g1 r g2 where
    d: "deletions g = Some ds" and
    a: "commitEach fuel ds g = Returns g1" and
    r: "wipRoot g1 = Some r" and
    b: "commitWork fuel (child (heap g1 r)) g1 = Returns g2" and
    g': "g' = g2\<lparr>currentRoot := wipRoot g2, wipRoot := None\<rparr>"
    by (auto simp: commitRoot_def split: option.splits outcome.splits)
  have 1: "g1 = g\<lparr>parentNode := parentNode g1, trace := trace g1\<rparr>" using a by (rule commitEach_frame)
  have h1: "heap g1 = heap g" "heapSize g1 = heapSize g" "wipRoot g1 = wipRoot g"
    by (subst 1, simp)+
  have i1: "inPass n0 g1" using i by (subst 1) simp
  have rn: "r = n0" using r h1 w by simp
  have "\<forall>d\<in>set ds. d < n0" using inPassD(4) [OF i] d by simp
  from commitEach_old [OF i this a]
  obtain l1 where l1: "trace g1 = trace g @ l1" "\<forall>e\<in>set l1. fst e < n0" by blast
  have "newOk n0 (heapSize g1) (heap g1 n0)"
    using inPassD(1) [OF i1] by (intro inPassD(3) [OF i1]) simp_all
  then have "\<forall>f. child (heap g1 r) = Some f \<longrightarrow> n0 < f \<and> f < heapSize g1"
    unfolding rn by (simp add: newOk_def)
  from commitWork_new [OF i1 this b]
  obtain l2 where l2: "trace g2 = trace g1 @ l2"
    "\<forall>e\<in>set l2. n0 < fst e \<and> \<not> isRemoval (snd e)" by blast
  have "trace g' = trace g @ l1 @ l2" using l1 l2 g' by simp
  with d a l1 l2 show ?thesis by blast
qed

lemma workLoop_closed:
  assumes "passInv n0 g" and "workLoop C fuel deadline g = Returns g'"
  shows "closedHeap g'"
proof -
  from assms(2) obtain g1 where
    u: "workUnits C fuel fuel deadline 0 False g = Returns g1" and
    c: "(if nextUnitOfWork g1 = None \<and> wipRoot g1 \<noteq> None then commitRoot fuel g1
         else Returns g1) = Returns g'"
    unfolding workLoop_def by (auto split: outcome.splits)
  have i: "passInv n0 g1" using assms(1) u by (rule workUnits_passInv)
  show ?thesis
  proof (cases "nextUnitOfWork g1 = None \<and> wipRoot g1 \<noteq> None")
    case True
    with c have "commitRoot fuel g1 = Returns g'" by (auto split: if_splits)
    with i show ?thesis by (rule commitRoot_closed)
  next
    case False
    with c have "g' = g1" by (auto split: if_splits)
    with i show ?thesis by (simp add: passInv_closed)
  qed
qed

section \<open>What the first phase of a commit does\<close>

text \<open>
  \<open>commitWork\<close> applied to an entry of the deletions list removes its node and then goes
  on, as for every fiber, to the child and to the sibling of that fiber, which are fibers
  of the previous tree with the effect tags the previous pass left.

  \<open>lists1\<close> is \<open>section [ul [a, b], ol [i]]\<close> and \<open>lists2\<close> is \<open>section [ul [p, b], ol [em]]\<close>.
  With \<open>lists1\<close> committed and \<open>lists2\<close> rendered, the deletions list holds the old
  fibers of \<open>a\<close> (4) and \<open>i\<close> (6); the old fiber of \<open>b\<close> (5) is the sibling of 4, is
  still tagged \<open>PLACEMENT\<close>, and its node 4 is the one the fiber 12 of the new tree
  reuses with the tag \<open>UPDATE\<close>.
\<close>

lemma listsPending_run:
  "isReturns (workLoop noComponents 9 full (render lists1 (Some 0) (init 1))) \<and>
   (let g = listsMounted in
      heapSize g = 7 \<and>
      isReturns (workUnits noComponents 9 9 full 0 False (render lists2 (Some 0) g))) \<and>
   (let g = listsPending in
      wipRoot g = Some 7 \<and> nextUnitOfWork g = None \<and> deletions g = Some [4, 6] \<and>
      sibling (heap g 4) = Some 5 \<and> effectTag (heap g 5) = Some PLACEMENT \<and>
      domNode (heap g 5) = Some 4 \<and>
      effectTag (heap g 12) = Some UPDATE \<and> domNode (heap g 12) = Some 4 \<and>
      alternate (heap g 12) = Some 5 \<and> domNode (heap g 4) = Some 3 \<and>
      domNode (heap g 6) = Some 6 \<and>
      map_outcome (\<lambda>g'. take 3 (drop (length (trace g)) (trace g'))) (commitRoot 9 g) =
        Returns [(4, RemoveChild 2 3), (5, AppendChild 2 4), (6, RemoveChild 5 6)] \<and>
      map_outcome (\<lambda>g'. map fst (drop (length (trace g)) (trace g'))) (commitRoot 9 g) =
        Returns [4, 5, 6, 8, 9, 11, 12, 10, 13])"
  by (simp add: run_defs engine_defs eval_nat_numeral)

text \<open>
  \<open>section3\<close> is \<open>section [div, div, span]\<close> and \<open>section2\<close> is \<open>section [div, span]\<close>.
  With \<open>section3\<close> committed and \<open>section2\<close> rendered, the deletions list holds the old
  fibers of the second \<open>div\<close> (3) and of the \<open>span\<close> (4), and 4 is the sibling of 3.
\<close>

lemma sectionPending_run:
  "let g = sectionPending in
     wipRoot g = Some 5 \<and> nextUnitOfWork g = None \<and> deletions g = Some [3, 4] \<and>
     sibling (heap g 3) = Some 4 \<and> effectTag (heap g 4) = Some DELETION \<and>
     commitRoot 9 g = Throws NotFoundError"
  by (simp add: run_defs engine_defs eval_nat_numeral)

text \<open>
  C7. The commit does not apply every removal of the deletions list before any attach:
  \<open>commitWork\<close> on an entry of the list goes on to the siblings of the deleted fiber in
  the previous tree. With \<open>section [ul [a, b], ol [i]]\<close> committed and
  \<open>section [ul [p, b], ol [em]]\<close> rendered, the commit removes the node of \<open>a\<close>, then
  attaches the node of \<open>b\<close> again (node 4, which the new tree keeps and updates through
  its fiber 12), and only then removes the node of \<open>i\<close>, the second entry of the list.
  With \<open>section [div, div, span]\<close> committed and \<open>section [div, span]\<close> rendered, the
  node of the old \<open>span\<close> is removed as the sibling of the first entry and again as the
  second entry: the second \<open>removeChild\<close> throws and the commit does not complete.
\<close>

theorem commitRoot_attaches_between_removals:
  "deletions listsPending = Some [4, 6] \<and>
   domNode (heap listsPending 4) = Some 3 \<and> domNode (heap listsPending 6) = Some 6 \<and>
   sibling (heap listsPending 4) = Some 5 \<and> domNode (heap listsPending 5) = Some 4 \<and>
   effectTag (heap listsPending 12) = Some UPDATE \<and> domNode (heap listsPending 12) = Some 4 \<and>
   map_outcome (\<lambda>g'. take 3 (drop (length (trace listsPending)) (trace g')))
     (commitRoot 9 listsPending) =
     Returns [(4, RemoveChild 2 3), (5, AppendChild 2 4), (6, RemoveChild 5 6)] \<and>
   map_outcome (\<lambda>g'. map fst (drop (length (trace listsPending)) (trace g')))
     (commitRoot 9 listsPending) =
     Returns [4, 5, 6, 8, 9, 11, 12, 10, 13] \<and>
   deletions sectionPending = Some [3, 4] \<and> sibling (heap sectionPending 3) = Some 4 \<and>
   commitRoot 9 sectionPending = Throws NotFoundError"
  using listsPending_run sectionPending_run by (simp add: Let_def)

text \<open>
  The two phases of the commit of \<open>listsPending\<close>: the first three calls are made for
  fibers of the previous tree, the other six for fibers of the new tree.
\<close>

lemma listsPending_passInv: "passInv 7 listsPending"
proof -
  have r1: "isReturns (workLoop noComponents 9 full (render lists1 (Some 0) (init 1)))"
    and n: "heapSize listsMounted = 7"
    and r2: "isReturns (workUnits noComponents 9 9 full 0 False
                          (render lists2 (Some 0) listsMounted))"
    using listsPending_run by (simp_all add: Let_def)
  have "passInv (heapSize (init 1)) (render lists1 (Some 0) (init 1))"
    using init_closed by (rule render_passInv)
  then have "closedHeap listsMounted"
    unfolding listsMounted_def using returns_stateOf [OF r1] by (rule workLoop_closed)
  then have "passInv (heapSize listsMounted) (render lists2 (Some 0) listsMounted)"
    by (rule render_passInv)
  then have "passInv (heapSize listsMounted) listsPending"
    unfolding listsPending_def using returns_stateOf [OF r2] by (rule workUnits_passInv)
  then show ?thesis using n by simp
qed

lemma listsPending_phases:
  "\<exists>g' l1 l2. commitRoot 9 listsPending = Returns g' \<and>
     trace g' = trace listsPending @ l1 @ l2 \<and>
     (\<forall>e\<in>set l1. fst e < 7) \<and> (\<forall>e\<in>set l2. 7 < fst e \<and> \<not> isRemoval (snd e))"
proof -
  have "map_outcome (\<lambda>g'. map fst (drop (length (trace listsPending)) (trace g')))
          (commitRoot 9 listsPending) \<noteq> OutOfFuel \<and>
        (\<forall>e. map_outcome (\<lambda>g'. map fst (drop (length (trace listsPending)) (trace g')))
               (commitRoot 9 listsPending) \<noteq> Throws e)"
    using listsPending_run by (simp add: Let_def)
  then obtain g' where g': "commitRoot 9 listsPending = Returns g'"
    by (cases "commitRoot 9 listsPending") simp_all
  from commitRoot_phases [OF listsPending_passInv g'] show ?thesis using g' by blast
qed

section \<open>State across renders\<close>









section \<open>Rendering the same descriptions again\<close>

lemma matched_links [simp]:
  "matched H n0 (f\<lparr>child := c\<rparr>) = matched H n0 f"
  "matched H n0 (f\<lparr>sibling := s\<rparr>) = matched H n0 f"
  "matched H n0 (f\<lparr>domNode := d, hooks := h\<rparr>) = matched H n0 f"
  by (simp_all add: matched_def isFunctionComponent_def)









lemma rerendering_nextUnit [simp]:
  "rerendering H n0 (g\<lparr>nextUnitOfWork := n\<rparr>) = rerendering H n0 g"
  by (simp add: rerendering_def)









end
